theory Spec2Isabelle
  imports Main "HOL-Library.AList"
begin

section \<open>Values of the host language\<close>

text \<open>
  The logger is handed arbitrary JavaScript values (the variadic arguments of a log
  call, the fields of a context object, whatever a transport throws).  The distinctions
  the logger's code makes or runs into are kept:
  \<^item> an object has a prototype, its own enumerable data properties in the order in which
    they are enumerated, and an integrity level: \<open>Object.seal\<close> makes the properties
    impossible to delete, \<open>Object.freeze\<close> also impossible to write.  The prototype is
    \<open>Object.prototype\<close>, \<open>null\<close>, or that of a class or of a built-in other than \<open>Object\<close>,
    which inherits from \<open>Object.prototype\<close>, has a \<open>constructor\<close> other than \<open>Object\<close>, and
    has writable properties only;
  \<^item> an \<open>Error\<close> instance is given by what \<open>name\<close>, \<open>message\<close> and \<open>stack\<close> read on it;
  \<^item> \<open>VObjectCtor\<close> is the global function \<open>Object\<close>, \<open>VOther\<close> any value that is not an
    object (a symbol, a big integer).
  A string is a list of code units below 256.  Accessor properties, proxies and symbol
  keys are outside these values.
\<close>

datatype Proto = ObjectProto | NullProto | OtherProto

datatype Integrity = Unsealed | Sealed | Frozen

datatype jsval =
    VUndefined
  | VNull
  | VBool bool
  | VNum int
  | VStr string
  | VError string string "string option"
  | VObj Proto "(string \<times> jsval) list" Integrity
  | VObjectCtor
  | VOther nat

text \<open>The own properties of an object, in order; and a dictionary of bindings.\<close>

type_synonym props = "(string \<times> jsval) list"

type_synonym jsobj = "string \<Rightarrow> jsval option"

text \<open>\<open>export type LogLevel = 'debug' | 'info' | 'warn' | 'error'\<close>\<close>

datatype LogLevel = Debug | Info | Warn | Error

datatype Frequency = Daily | Hourly

text \<open>
  \<open>interface LogTransport { handle(level, namespace, message, context?): void }\<close>.
  A transport is an object with an identity (\<open>tid\<close>) and a \<open>handle\<close> method that either
  returns (\<open>None\<close>) or throws a value (\<open>Some e\<close>).
\<close>

record LogTransport =
  tid :: nat
  handle :: "LogLevel \<Rightarrow> string \<Rightarrow> string \<Rightarrow> props \<Rightarrow> jsval option"

record LoggerOptions =
  opt_namespace :: "string option"
  opt_enabled :: "bool option"
  opt_level :: "LogLevel option"
  opt_bindings :: "jsobj option"
  opt_logDir :: "string option"
  opt_logFileName :: "string option"
  opt_disableConsole :: "bool option"
  opt_maxSize :: "string option"
  opt_maxFiles :: "int option"
  opt_frequency :: "Frequency option"
  opt_transports :: "LogTransport list option"

definition noOptions :: LoggerOptions where
  "noOptions = \<lparr> opt_namespace = None, opt_enabled = None, opt_level = None,
     opt_bindings = None, opt_logDir = None, opt_logFileName = None,
     opt_disableConsole = None, opt_maxSize = None, opt_maxFiles = None,
     opt_frequency = None, opt_transports = None \<rparr>"

section \<open>Module state: the backend provider\<close>

text \<open>
  What the module reads from its host while it is loaded.  \<open>process\<close> may be absent
  (a browser), and so may \<open>process.env\<close> and \<open>require\<close>.  \<open>require('pino')\<close> throws or
  returns the module (\<open>None\<close> stands for a falsy export); the module's factory
  \<open>pino(config)\<close> throws or returns the root instance; \<open>require('os').hostname()\<close>
  throws or returns a name.
\<close>

datatype Destination = Stdout | ToFile "string option"

record PinoTarget =
  pt_target :: string
  pt_level :: string
  pt_destination :: Destination
  pt_mkdir :: bool

record PinoConfig =
  cfg_level :: string
  cfg_redact :: "string list"
  cfg_base_pid :: nat
  cfg_base_hostname :: string
  cfg_base_service :: string
  cfg_transport_targets :: "PinoTarget list option"

record PinoModule =
  transport_is_function :: bool
  pino_factory :: "PinoConfig \<Rightarrow> jsval option"

record Process =
  process_env :: "(string \<Rightarrow> string option) option"
  process_pid :: nat

record Host =
  window_defined :: bool
  host_process :: "Process option"
  require_defined :: bool
  require_pino :: "jsval + PinoModule option"
  os_hostname :: "jsval + string"

text \<open>The module-level bindings every logger reads.\<close>

record Globals =
  isBrowser :: bool
  isProd :: bool
  stripLogs :: bool
  pinoAvailable :: bool
  pinoModule :: "PinoModule option"
  logFileEnabled :: bool
  logfireEnabled :: bool
  basePino :: "PinoConfig option"

section \<open>Strings\<close>

text \<open>\<open>x || d\<close> on an optional string: the empty string is falsy.\<close>

definition orString :: "string option \<Rightarrow> string \<Rightarrow> string" where
  "orString x d = (case x of None \<Rightarrow> d | Some s \<Rightarrow> if s = [] then d else s)"

text \<open>\<open>str.split(sep)\<close> for a separator of one character: never empty.\<close>

fun split :: "char \<Rightarrow> string \<Rightarrow> string list" where
  "split sep [] = [[]]"
| "split sep (c # cs) =
     (if c = sep then [] # split sep cs
      else (case split sep cs of w # ws \<Rightarrow> (c # w) # ws | [] \<Rightarrow> [[c]]))"

section \<open>Loading the module\<close>

text \<open>
  The module's top-level statements, in order.  A statement that throws ends the
  evaluation of the module with that exception (\<open>Inl\<close>): the import of the package fails.
\<close>

definition bindE :: "jsval + 'a \<Rightarrow> ('a \<Rightarrow> jsval + 'b) \<Rightarrow> jsval + 'b" where
  "bindE x f = (case x of Inl e \<Rightarrow> Inl e | Inr v \<Rightarrow> f v)"

text \<open>
  \<open>process.env.NAME\<close> read without a guard: a \<open>ReferenceError\<close> when \<open>process\<close> is not
  defined, a \<open>TypeError\<close> when \<open>process.env\<close> is not.
\<close>

definition envVar :: "Host \<Rightarrow> string \<Rightarrow> jsval + string option" where
  "envVar host name =
     (case host_process host of
        None \<Rightarrow> Inl (VError ''ReferenceError'' ''process is not defined'' None)
      | Some p \<Rightarrow>
          (case process_env p of
             None \<Rightarrow> Inl (VError ''TypeError'' ''Cannot read properties of undefined'' None)
           | Some e \<Rightarrow> Inr (e name)))"

text \<open>\<open>typeof process !== 'undefined' && process.env?.NAME === v\<close>\<close>

definition guardedEnvIs :: "Host \<Rightarrow> string \<Rightarrow> string \<Rightarrow> bool" where
  "guardedEnvIs host name v =
     (case host_process host of
        None \<Rightarrow> False
      | Some p \<Rightarrow> (case process_env p of None \<Rightarrow> False | Some e \<Rightarrow> e name = Some v))"

text \<open>\<open>!!x\<close> for an optional string.\<close>

definition truthy :: "string option \<Rightarrow> bool" where
  "truthy x = (case x of None \<Rightarrow> False | Some s \<Rightarrow> s \<noteq> [])"

text \<open>
  \<open>try { if (typeof require !== 'undefined') { pinoModule = require('pino');
  pinoAvailable = !!pinoModule } } catch { pinoAvailable = false }\<close>
\<close>

definition tryRequirePino :: "Host \<Rightarrow> bool \<times> PinoModule option" where
  "tryRequirePino host =
     (if require_defined host
      then (case require_pino host of
              Inl e \<Rightarrow> (False, None)
            | Inr md \<Rightarrow> (md \<noteq> None, md))
      else (False, None))"

text \<open>
  \<open>s.trim()\<close>: the white space and line terminators among the code units below 256 are
  tab, line feed, vertical tab, form feed, carriage return, space and no-break space.
\<close>

definition isSpace :: "char \<Rightarrow> bool" where
  "isSpace c = (c \<in> {CHR '' '', CHR 0x09, CHR 0x0A, CHR 0x0B, CHR 0x0C, CHR 0x0D, CHR 0xA0})"

definition trim :: "string \<Rightarrow> string" where
  "trim s = rev (dropWhile isSpace (rev (dropWhile isSpace s)))"

text \<open>The body of \<open>if (pinoAvailable) { ... basePino = pinoModule(pinoConfig) }\<close>.\<close>

definition createBasePino :: "Host \<Rightarrow> bool \<Rightarrow> bool \<Rightarrow> bool \<Rightarrow> PinoModule \<Rightarrow> jsval + PinoConfig" where
  "createBasePino host production logfire logFile md =
     bindE (envVar host ''LOG_REDACT'') (\<lambda>redactVar.
     bindE (envVar host ''LOG_LEVEL'') (\<lambda>levelVar.
     bindE (case host_process host of
              None \<Rightarrow> Inl (VError ''ReferenceError'' ''process is not defined'' None)
            | Some p \<Rightarrow> Inr (process_pid p)) (\<lambda>pid.
     bindE (envVar host ''HOSTNAME'') (\<lambda>hostVar.
     bindE (case hostVar of
              None \<Rightarrow> os_hostname host
            | Some hn \<Rightarrow> if hn = [] then os_hostname host else Inr hn) (\<lambda>hostname.
     bindE (envVar host ''LOGFIRE_PROJECT'') (\<lambda>projectVar.
     bindE (envVar host ''npm_package_name'') (\<lambda>packageVar.
     bindE (if logFile then envVar host ''LOG_FILE_PATH'' else Inr None) (\<lambda>pathVar.
       (let targets =
              (if logfire
               then [\<lparr> pt_target = ''pino/file'', pt_level = ''debug'',
                       pt_destination = Stdout, pt_mkdir = False \<rparr>]
               else [])
              @ (if logFile
                 then [\<lparr> pt_target = ''pino/file'', pt_level = ''debug'',
                         pt_destination = ToFile pathVar, pt_mkdir = True \<rparr>]
                 else []);
            pinoConfig =
              \<lparr> cfg_level = orString levelVar (if production then ''info'' else ''debug''),
                cfg_redact =
                  (case redactVar of
                     None \<Rightarrow> []
                   | Some r \<Rightarrow>
                       if r = [] then []
                       else filter (\<lambda>s. s \<noteq> []) (map trim (split CHR '','' r))),
                cfg_base_pid = pid,
                cfg_base_hostname = hostname,
                cfg_base_service =
                  (if truthy projectVar then orString projectVar ''qwickapps''
                   else orString packageVar ''qwickapps''),
                cfg_transport_targets =
                  (if (logfire \<or> logFile) \<and> transport_is_function md then Some targets else None) \<rparr>
        in case pino_factory md pinoConfig of
             Some e \<Rightarrow> Inl e
           | None \<Rightarrow> Inr pinoConfig)))))))))"

text \<open>The module's bindings after it has loaded, or the exception that ended the load.\<close>

definition loadModule :: "Host \<Rightarrow> jsval + Globals" where
  "loadModule host =
     (let browser = window_defined host;
          production = guardedEnvIs host ''NODE_ENV'' ''production'';
          strip = guardedEnvIs host ''STRIP_LOGS'' ''true'';
          available = fst (tryRequirePino host);
          md = snd (tryRequirePino host)
      in bindE (if available
                then bindE (envVar host ''LOG_FILE'') (\<lambda>f.
                       if f = Some ''true''
                       then bindE (envVar host ''LOG_FILE_PATH'') (\<lambda>pth. Inr (truthy pth))
                       else Inr False)
                else Inr False) (\<lambda>logFile.
         bindE (if \<not> browser
                then bindE (envVar host ''LOGFIRE_TOKEN'') (\<lambda>t. Inr (truthy t))
                else Inr False) (\<lambda>logfire.
         bindE (case md of
                  Some pm \<Rightarrow>
                    if available
                    then bindE (createBasePino host production logfire logFile pm) (\<lambda>c. Inr (Some c))
                    else Inr None
                | None \<Rightarrow> Inr None) (\<lambda>base.
           Inr \<lparr> isBrowser = browser, isProd = production, stripLogs = strip,
                 pinoAvailable = available, pinoModule = md,
                 logFileEnabled = logFile, logfireEnabled = logfire, basePino = base \<rparr>))))"

section \<open>Backends\<close>

text \<open>
  A backend is one of: a child of the root pino instance carrying its bindings, the
  development console backend (whose four methods do nothing), or the no-op backend.
\<close>

datatype Backend = PinoChild jsobj | ConsoleBackend string | NoopBackend

text \<open>\<open>buildBackend(namespace, extraBindings)\<close>\<close>

definition buildBackend :: "Globals \<Rightarrow> string \<Rightarrow> jsobj option \<Rightarrow> Backend" where
  "buildBackend g ns extraBindings =
     (if pinoAvailable g \<and> basePino g \<noteq> None
      then PinoChild ([''ns'' \<mapsto> VStr ns] ++ (case extraBindings of None \<Rightarrow> Map.empty | Some b \<Rightarrow> b))
      else if \<not> isProd g then ConsoleBackend ns
      else NoopBackend)"

fun levelOrder :: "LogLevel \<Rightarrow> nat" where
  "levelOrder Debug = 10"
| "levelOrder Info = 20"
| "levelOrder Warn = 30"
| "levelOrder Error = 40"

definition levelEnabled :: "LogLevel \<Rightarrow> LogLevel \<Rightarrow> bool" where
  "levelEnabled target current = (levelOrder target \<ge> levelOrder current)"

section \<open>The Logger class\<close>

text \<open>
  A \<open>Logger\<close> object.  Loggers live in a heap (a list addressed by position), and the
  \<open>children\<close> map holds addresses, in insertion order as a JavaScript \<open>Map\<close> does.  The
  transport array is held by value: the class replaces it (in \<open>setConfig\<close>) and never
  changes it in place.
\<close>

record Logger =
  namespace :: string
  enabled :: bool
  backend :: Backend
  minLevel :: LogLevel
  logDir :: string
  logFileName :: string
  disableConsole :: bool
  maxSize :: "string option"
  maxFiles :: "int option"
  frequency :: "Frequency option"
  children :: "(string \<times> nat) list"
  transports :: "LogTransport list"

text \<open>The constructor: the object \<open>new Logger(options)\<close> builds, with no children yet.\<close>

definition Logger_constructor :: "Globals \<Rightarrow> LoggerOptions \<Rightarrow> Logger" where
  "Logger_constructor g options =
     (let ns = orString (opt_namespace options) ''Anonymous'';
          ts = (case opt_transports options of None \<Rightarrow> [] | Some l \<Rightarrow> l);
          hasTransports = (length ts > 0)
      in \<lparr> namespace = ns,
           enabled = (\<not> stripLogs g \<and> opt_enabled options \<noteq> Some False
                      \<and> (\<not> isProd g \<or> pinoAvailable g \<or> hasTransports)),
           backend = buildBackend g ns (opt_bindings options),
           minLevel = (case opt_level options of None \<Rightarrow> (if isProd g then Info else Debug) | Some l \<Rightarrow> l),
           logDir = orString (opt_logDir options) ''./logs'',
           logFileName = orString (opt_logFileName options) ''app.log'',
           disableConsole = (case opt_disableConsole options of None \<Rightarrow> False | Some b \<Rightarrow> b),
           maxSize = opt_maxSize options,
           maxFiles = opt_maxFiles options,
           frequency = opt_frequency options,
           children = [],
           transports = ts \<rparr>)"

section \<open>Emission\<close>

text \<open>
  The entry a log call builds: its own fields in order, and its prototype when an
  assignment to \<open>__proto__\<close> has replaced \<open>Object.prototype\<close>.
\<close>

record Entry =
  entry_fields :: props
  entry_proto :: "jsval option"

text \<open>
  What a log call does to the outside world, in order: calls of a backend method with
  the entry, of a transport's \<open>handle\<close> with a copy of the entry's fields, and of a
  \<open>console\<close> method with its arguments.
\<close>

datatype Event =
    BackendCall Backend LogLevel Entry "jsval list"
  | TransportCall nat LogLevel string string props
  | ConsoleCall string "jsval list"

text \<open>
  \<open>isPlainObject(v)\<close>: \<open>v !== null && typeof v === 'object' && (v.constructor === Object ||
  Object.getPrototypeOf(v) === null)\<close>.  \<open>v.constructor\<close> reads an own property if there is
  one, else the prototype's: \<open>Object\<close> for \<open>Object.prototype\<close>, another function for another
  prototype, nothing for \<open>null\<close>.
\<close>

fun isPlainObject :: "jsval \<Rightarrow> bool" where
  "isPlainObject (VObj pr ps integ) =
     (case map_of ps ''constructor'' of
        Some VObjectCtor \<Rightarrow> True
      | Some _ \<Rightarrow> pr = NullProto
      | None \<Rightarrow> pr = ObjectProto \<or> pr = NullProto)"
| "isPlainObject _ = False"

fun instanceofError :: "jsval \<Rightarrow> bool" where
  "instanceofError (VError _ _ _) = True"
| "instanceofError _ = False"

text \<open>The \<open>TypeError\<close> a strict-mode \<open>delete\<close> or assignment throws when it is refused.\<close>

definition typeError :: "string \<Rightarrow> jsval" where
  "typeError what = VError ''TypeError'' what None"

text \<open>\<open>str.substring(s, e)\<close>: indices beyond the end are clamped, and swapped if \<open>s > e\<close>.\<close>

definition substring :: "nat \<Rightarrow> nat \<Rightarrow> string \<Rightarrow> string" where
  "substring s e str = (if s \<le> e then take (e - s) (drop s str) else take (s - e) (drop e str))"

text \<open>
  \<open>formatConsoleMessage(ns, msg)\<close>; \<open>now\<close> is \<open>new Date().toISOString()\<close> at the time of
  the call.
\<close>

definition formatConsoleMessage :: "string \<Rightarrow> string \<Rightarrow> string \<Rightarrow> string" where
  "formatConsoleMessage now ns msg = substring 11 19 now @ '' ['' @ ns @ ''] '' @ msg"

fun levelName :: "LogLevel \<Rightarrow> string" where
  "levelName Debug = ''debug''"
| "levelName Info = ''info''"
| "levelName Warn = ''warn''"
| "levelName Error = ''error''"

definition writeToConsole :: "string \<Rightarrow> LogLevel \<Rightarrow> string \<Rightarrow> string \<Rightarrow> Event" where
  "writeToConsole now lvl ns msg =
     ConsoleCall (if lvl = Debug then ''log'' else levelName lvl) [VStr (formatConsoleMessage now ns msg)]"

text \<open>
  The loop \<open>for (const transport of this.transports) transport.handle(...)\<close>: it runs until
  a \<open>handle\<close> throws, and yields the calls made and the value thrown, if any.
\<close>

fun callTransports ::
  "LogTransport list \<Rightarrow> LogLevel \<Rightarrow> string \<Rightarrow> string \<Rightarrow> props \<Rightarrow> Event list \<times> jsval option" where
  "callTransports [] lvl ns message entry = ([], None)"
| "callTransports (t # ts) lvl ns message entry =
     (case handle t lvl ns message entry of
        Some e \<Rightarrow> ([TransportCall (tid t) lvl ns message entry], Some e)
      | None \<Rightarrow>
          (case callTransports ts lvl ns message entry of
             (evs, r) \<Rightarrow> (TransportCall (tid t) lvl ns message entry # evs, r)))"

text \<open>
  Step 2 of \<open>emit\<close>: the loop inside \<open>try\<close>, and the \<open>catch\<close> that reports to the console.
  Each transport receives \<open>{ ...entry }\<close>, a fresh object with the entry's own fields.
\<close>

definition transportStage :: "Logger \<Rightarrow> LogLevel \<Rightarrow> string \<Rightarrow> props \<Rightarrow> Event list" where
  "transportStage this lvl message entry =
     (if length (transports this) > 0
      then (case callTransports (transports this) lvl (namespace this) message entry of
              (evs, None) \<Rightarrow> evs
            | (evs, Some error) \<Rightarrow>
                evs @ [ConsoleCall ''error'' [VStr ''[LogTransport] Error in custom transport:'', error]])
      else [])"

text \<open>Step 3 of \<open>emit\<close>.\<close>

definition consoleStage :: "string \<Rightarrow> Logger \<Rightarrow> LogLevel \<Rightarrow> string \<Rightarrow> bool \<Rightarrow> Event list" where
  "consoleStage now this lvl message writeConsole =
     (if writeConsole \<and> lvl \<noteq> Debug \<and> \<not> disableConsole this
      then [writeToConsole now lvl (namespace this) message]
      else [])"

text \<open>
  The leading context argument: \<open>args.shift()\<close> when \<open>args[0]\<close> is a plain object and not
  an \<open>Error\<close>.  The context is given by its own properties and its integrity level.
\<close>

fun shiftContext :: "jsval list \<Rightarrow> (props \<times> Integrity) option \<times> jsval list" where
  "shiftContext [] = (None, [])"
| "shiftContext (a # rest) =
     (if isPlainObject a \<and> \<not> instanceofError a
      then (case a of VObj pr ps integ \<Rightarrow> (Some (ps, integ), rest) | _ \<Rightarrow> (None, a # rest))
      else (None, a # rest))"

text \<open>
  \<open>if (context?.error instanceof Error) { errObj = {...}; delete context.error }\<close>: the
  flattened error, if any, and the context afterwards.  The class body is strict code, so
  the \<open>delete\<close> of a property that cannot be deleted throws a \<open>TypeError\<close>.  (The \<open>delete\<close>
  also changes the object the caller passed; the caller's side is not followed here.)
\<close>

fun liftError :: "(props \<times> Integrity) option \<Rightarrow> jsval + (jsval option \<times> props option)" where
  "liftError None = Inr (None, None)"
| "liftError (Some (c, integ)) =
     (case map_of c ''error'' of
        Some (VError n m s) \<Rightarrow>
          (if integ = Unsealed
           then Inr (Some (VObj ObjectProto
                            [(''name'', VStr n), (''message'', VStr m),
                             (''stack'', (case s of None \<Rightarrow> VUndefined | Some st \<Rightarrow> VStr st))]
                            Unsealed),
                     Some (AList.delete ''error'' c))
           else Inl (typeError ''Cannot delete property error''))
      | _ \<Rightarrow> Inr (None, Some c))"

text \<open>
  Whether a prototype refuses the write of a property the entry does not have itself: a
  frozen object refuses its own properties; the function \<open>Object\<close> has read-only \<open>name\<close>,
  \<open>length\<close> and \<open>prototype\<close>, and inherits \<open>caller\<close> and \<open>arguments\<close>, whose setters throw.
\<close>

fun refusesWrite :: "jsval \<Rightarrow> string \<Rightarrow> bool" where
  "refusesWrite (VObj pr ps integ) k = (integ = Frozen \<and> k \<in> fst ` set ps)"
| "refusesWrite VObjectCtor k = (k \<in> set [''name'', ''length'', ''prototype'', ''caller'', ''arguments''])"
| "refusesWrite _ k = False"

text \<open>Whether a prototype has a property \<open>__proto__\<close> of its own, which hides the accessor.\<close>

fun protoShadowed :: "jsval \<Rightarrow> bool" where
  "protoShadowed (VObj pr ps integ) = (''__proto__'' \<in> fst ` set ps)"
| "protoShadowed _ = False"

text \<open>Whether the chain of a prototype ends in \<open>Object.prototype\<close>, which has the \<open>__proto__\<close> accessor.\<close>

fun reachesObjectPrototype :: "jsval option \<Rightarrow> bool" where
  "reachesObjectPrototype None = True"
| "reachesObjectPrototype (Some (VObj pr ps integ)) = (pr \<noteq> NullProto)"
| "reachesObjectPrototype (Some VNull) = False"
| "reachesObjectPrototype (Some _) = True"

fun isObjectOrNull :: "jsval \<Rightarrow> bool" where
  "isObjectOrNull VNull = True"
| "isObjectOrNull (VObj pr ps integ) = True"
| "isObjectOrNull (VError n m s) = True"
| "isObjectOrNull VObjectCtor = True"
| "isObjectOrNull _ = False"

text \<open>
  \<open>entry[k] = v\<close> in strict code, as \<open>Object.assign\<close> and \<open>entry.err = errObj\<close> do it.  An own
  field is overwritten.  Otherwise the prototype decides: it may refuse the write, which
  throws; \<open>__proto__\<close>, when it is found on \<open>Object.prototype\<close>, is an accessor that sets
  the prototype to an object or \<open>null\<close> and ignores every other value; in every other case
  the entry gets a new field at the end.
\<close>

definition setField :: "Entry \<Rightarrow> string \<Rightarrow> jsval \<Rightarrow> jsval + Entry" where
  "setField entry k v =
     (if k \<in> fst ` set (entry_fields entry)
      then Inr (entry \<lparr> entry_fields := AList.update k v (entry_fields entry) \<rparr>)
      else if (case entry_proto entry of None \<Rightarrow> False | Some p \<Rightarrow> refusesWrite p k)
      then Inl (typeError ''Cannot assign to read only property'')
      else if k = ''__proto__'' \<and> reachesObjectPrototype (entry_proto entry)
              \<and> \<not> (case entry_proto entry of None \<Rightarrow> False | Some p \<Rightarrow> protoShadowed p)
      then Inr (if isObjectOrNull v then entry \<lparr> entry_proto := Some v \<rparr> else entry)
      else Inr (entry \<lparr> entry_fields := entry_fields entry @ [(k, v)] \<rparr>))"

text \<open>\<open>Object.assign(entry, context)\<close>: the context's own properties, in order.\<close>

fun objectAssign :: "Entry \<Rightarrow> props \<Rightarrow> jsval + Entry" where
  "objectAssign entry [] = Inr entry"
| "objectAssign entry ((k, v) # kvs) =
     (case setField entry k v of
        Inl e \<Rightarrow> Inl e
      | Inr entry' \<Rightarrow> objectAssign entry' kvs)"

text \<open>
  \<open>const entry = { msg: message }; if (context) Object.assign(entry, context);
  if (errObj) entry.err = errObj\<close>
\<close>

definition buildEntry :: "string \<Rightarrow> props option \<Rightarrow> jsval option \<Rightarrow> jsval + Entry" where
  "buildEntry message context errObj =
     (let entry = \<lparr> entry_fields = [(''msg'', VStr message)], entry_proto = None \<rparr>
      in bindE (case context of None \<Rightarrow> Inr entry | Some c \<Rightarrow> objectAssign entry c) (\<lambda>entry'.
           (case errObj of None \<Rightarrow> Inr entry' | Some e \<Rightarrow> setField entry' ''err'' e)))"

text \<open>
  The entry a call builds from its message and arguments, and the arguments left for the
  backend: context extraction, error lifting, and the merge into \<open>{ msg: message }\<close>; or the
  exception that one of these steps throws.
\<close>

definition makeEntry :: "string \<Rightarrow> jsval list \<Rightarrow> jsval + (Entry \<times> jsval list)" where
  "makeEntry message args =
     (case shiftContext args of (context, args') \<Rightarrow>
        bindE (liftError context) (\<lambda>(errObj, context').
        bindE (buildEntry message context' errObj) (\<lambda>entry. Inr (entry, args'))))"

text \<open>
  \<open>Logger.emit(level, message, args, writeConsole)\<close>: the calls it makes, and the exception
  it throws, if any.  The backend's methods are taken to return normally.
\<close>

definition emit ::
  "Globals \<Rightarrow> string \<Rightarrow> Logger \<Rightarrow> LogLevel \<Rightarrow> string \<Rightarrow> jsval list \<Rightarrow> bool
     \<Rightarrow> Event list \<times> jsval option" where
  "emit g now this lvl message args writeConsole =
     (if lvl \<noteq> Error \<and> \<not> enabled this then ([], None)
      else if lvl \<noteq> Error \<and> \<not> pinoAvailable g \<and> \<not> levelEnabled lvl (minLevel this) then ([], None)
      else
        (case makeEntry message args of
           Inl e \<Rightarrow> ([], Some e)
         | Inr (entry, args') \<Rightarrow>
             (BackendCall (backend this) lvl entry args'
              # transportStage this lvl message (entry_fields entry)
              @ consoleStage now this lvl message writeConsole, None)))"

definition Logger_debug ::
  "Globals \<Rightarrow> string \<Rightarrow> Logger \<Rightarrow> string \<Rightarrow> jsval list \<Rightarrow> Event list \<times> jsval option" where
  "Logger_debug g now this message args = emit g now this Debug message args False"

definition Logger_info ::
  "Globals \<Rightarrow> string \<Rightarrow> Logger \<Rightarrow> string \<Rightarrow> jsval list \<Rightarrow> Event list \<times> jsval option" where
  "Logger_info g now this message args = emit g now this Info message args True"

definition Logger_warn ::
  "Globals \<Rightarrow> string \<Rightarrow> Logger \<Rightarrow> string \<Rightarrow> jsval list \<Rightarrow> Event list \<times> jsval option" where
  "Logger_warn g now this message args = emit g now this Warn message args True"

definition Logger_error ::
  "Globals \<Rightarrow> string \<Rightarrow> Logger \<Rightarrow> string \<Rightarrow> jsval list \<Rightarrow> Event list \<times> jsval option" where
  "Logger_error g now this message args = emit g now this Error message args True"

text \<open>The four public methods, by level.\<close>

fun Logger_log ::
  "LogLevel \<Rightarrow> Globals \<Rightarrow> string \<Rightarrow> Logger \<Rightarrow> string \<Rightarrow> jsval list \<Rightarrow> Event list \<times> jsval option" where
  "Logger_log Debug = Logger_debug"
| "Logger_log Info = Logger_info"
| "Logger_log Warn = Logger_warn"
| "Logger_log Error = Logger_error"

section \<open>Objects and references\<close>

text \<open>
  Every \<open>new Logger(...)\<close> allocates a fresh object; a reference to a logger is its
  address, and two references are identical when the addresses are equal.  A
  \<open>Map\<close> is an association list read with \<open>map_of\<close> and written with \<open>AList.update\<close>
  (\<open>Map.set\<close>: in place for a key that is present, at the end for a new key).  Methods are
  called on existing objects, so the receiver's address is below the heap's length.
\<close>

type_synonym heap = "Logger list"

definition newLogger :: "Globals \<Rightarrow> LoggerOptions \<Rightarrow> heap \<Rightarrow> nat \<times> heap" where
  "newLogger g options h = (length h, h @ [Logger_constructor g options])"

text \<open>\<open>Logger.child(subNamespace, bindings)\<close>\<close>

definition Logger_child :: "Globals \<Rightarrow> nat \<Rightarrow> string \<Rightarrow> jsobj option \<Rightarrow> heap \<Rightarrow> nat \<times> heap" where
  "Logger_child g this subNamespace bindings h =
     (let childKey = subNamespace in
      case map_of (children (h ! this)) childKey of
        Some c \<Rightarrow> (c, h)
      | None \<Rightarrow>
          (case newLogger g
                  \<lparr> opt_namespace = Some (namespace (h ! this) @ ''.'' @ subNamespace),
                    opt_enabled = Some (enabled (h ! this)),
                    opt_level = Some (minLevel (h ! this)),
                    opt_bindings = bindings,
                    opt_logDir = Some (logDir (h ! this)),
                    opt_logFileName = Some (logFileName (h ! this)),
                    opt_disableConsole = Some (disableConsole (h ! this)),
                    opt_maxSize = maxSize (h ! this),
                    opt_maxFiles = maxFiles (h ! this),
                    opt_frequency = frequency (h ! this),
                    opt_transports = Some (transports (h ! this)) \<rparr> h of
             (childLogger, h') \<Rightarrow>
               (childLogger,
                h'[this := (h' ! this) \<lparr> children :=
                     AList.update childKey childLogger (children (h' ! this)) \<rparr>])))"

text \<open>
  The assignments \<open>setConfig(config)\<close> makes to the receiver, before it passes the
  configuration on to the children.
\<close>

definition applyConfig :: "Globals \<Rightarrow> LoggerOptions \<Rightarrow> Logger \<Rightarrow> Logger" where
  "applyConfig g config this0 =
     (let this1 = (case opt_logDir config of None \<Rightarrow> this0 | Some v \<Rightarrow> this0 \<lparr> logDir := v \<rparr>);
          this2 = (case opt_logFileName config of None \<Rightarrow> this1 | Some v \<Rightarrow> this1 \<lparr> logFileName := v \<rparr>);
          this3 = (case opt_disableConsole config of None \<Rightarrow> this2 | Some v \<Rightarrow> this2 \<lparr> disableConsole := v \<rparr>);
          this4 = (case opt_maxSize config of None \<Rightarrow> this3 | Some v \<Rightarrow> this3 \<lparr> maxSize := Some v \<rparr>);
          this5 = (case opt_maxFiles config of None \<Rightarrow> this4 | Some v \<Rightarrow> this4 \<lparr> maxFiles := Some v \<rparr>);
          this6 = (case opt_frequency config of None \<Rightarrow> this5 | Some v \<Rightarrow> this5 \<lparr> frequency := Some v \<rparr>);
          this7 = (case opt_level config of None \<Rightarrow> this6 | Some v \<Rightarrow> this6 \<lparr> minLevel := v \<rparr>);
          this8 = (case opt_enabled config of
                     None \<Rightarrow> this7
                   | Some en \<Rightarrow>
                       (let hasTransports =
                              ((case opt_transports config of None \<Rightarrow> False | Some ts \<Rightarrow> length ts > 0)
                               \<or> length (transports this7) > 0)
                        in this7 \<lparr> enabled := (\<not> stripLogs g \<and> en
                              \<and> (\<not> isProd g \<or> pinoAvailable g \<or> hasTransports)) \<rparr>))
      in (case opt_transports config of
            None \<Rightarrow> this8
          | Some ts \<Rightarrow>
              (let this9 = this8 \<lparr> transports := ts \<rparr>
               in if length (transports this9) > 0 \<and> \<not> enabled this9 \<and> \<not> stripLogs g
                  then this9 \<lparr> enabled := True \<rparr>
                  else this9)))"

text \<open>\<open>children.forEach(child => f(child))\<close>, where \<open>f\<close> may fail to return.\<close>

fun forEach :: "(nat \<Rightarrow> heap \<Rightarrow> heap option) \<Rightarrow> nat list \<Rightarrow> heap \<Rightarrow> heap option" where
  "forEach f [] h = Some h"
| "forEach f (c # cs) h = (case f c h of None \<Rightarrow> None | Some h' \<Rightarrow> forEach f cs h')"

text \<open>
  \<open>Logger.setConfig(config)\<close>.  The recursion follows the \<open>children\<close> maps through the heap,
  so it is given fuel: the depth of calls it may nest.  \<open>None\<close> means the fuel ran out
  (or the receiver does not exist).
\<close>

fun Logger_setConfig :: "nat \<Rightarrow> Globals \<Rightarrow> LoggerOptions \<Rightarrow> nat \<Rightarrow> heap \<Rightarrow> heap option" where
  "Logger_setConfig 0 g config this h = None"
| "Logger_setConfig (Suc n) g config this h =
     (if this < length h
      then forEach (\<lambda>child h'. Logger_setConfig n g config child h')
             (map snd (children (h ! this)))
             (h[this := applyConfig g config (h ! this)])
      else None)"

text \<open>\<open>Logger.with(bindings)\<close>\<close>

definition Logger_with :: "Globals \<Rightarrow> nat \<Rightarrow> jsobj \<Rightarrow> heap \<Rightarrow> nat \<times> heap" where
  "Logger_with g this bindings h =
     newLogger g
       \<lparr> opt_namespace = Some (namespace (h ! this)),
         opt_enabled = Some (enabled (h ! this)),
         opt_level = Some (minLevel (h ! this)),
         opt_bindings = Some bindings,
         opt_logDir = Some (logDir (h ! this)),
         opt_logFileName = Some (logFileName (h ! this)),
         opt_disableConsole = Some (disableConsole (h ! this)),
         opt_maxSize = maxSize (h ! this),
         opt_maxFiles = maxFiles (h ! this),
         opt_frequency = frequency (h ! this),
         opt_transports = None \<rparr> h"

section \<open>The registry\<close>

record State =
  heap :: heap
  loggerRegistry :: "(string \<times> nat) list"

text \<open>
  The loop of \<open>getLogger\<close> over \<open>parts[1..]\<close>: it extends \<open>currentPath\<close>, registers the
  child when the path is new, and goes on from the registered logger.
\<close>

fun walk :: "Globals \<Rightarrow> string list \<Rightarrow> nat \<Rightarrow> string \<Rightarrow> State \<Rightarrow> nat \<times> State" where
  "walk g [] currentLogger currentPath st = (currentLogger, st)"
| "walk g (childName # parts) currentLogger currentPath st =
     (let currentPath' = currentPath @ ''.'' @ childName in
      case map_of (loggerRegistry st) currentPath' of
        Some l \<Rightarrow> walk g parts l currentPath' st
      | None \<Rightarrow>
          (case Logger_child g currentLogger childName None (heap st) of
             (childLogger, h) \<Rightarrow>
               walk g parts childLogger currentPath'
                 (st \<lparr> heap := h,
                       loggerRegistry := AList.update currentPath' childLogger (loggerRegistry st) \<rparr>)))"

text \<open>\<open>getLogger(path)\<close>\<close>

definition getLogger :: "Globals \<Rightarrow> string \<Rightarrow> State \<Rightarrow> nat \<times> State" where
  "getLogger g path st =
     (case map_of (loggerRegistry st) path of
        Some l \<Rightarrow> (l, st)
      | None \<Rightarrow>
          (let parts = split CHR ''.'' path;
               rootName = hd parts
           in case map_of (loggerRegistry st) rootName of
                Some rootLogger \<Rightarrow> walk g (tl parts) rootLogger rootName st
              | None \<Rightarrow>
                  (case newLogger g (noOptions \<lparr> opt_namespace := Some rootName \<rparr>) (heap st) of
                     (rootLogger, h) \<Rightarrow>
                       walk g (tl parts) rootLogger rootName
                         (st \<lparr> heap := h,
                               loggerRegistry := AList.update rootName rootLogger (loggerRegistry st) \<rparr>))))"

definition emptyState :: State where
  "emptyState = \<lparr> heap = [], loggerRegistry = [] \<rparr>"

section \<open>Well-formed heaps\<close>

text \<open>
  What every heap built by the constructor, \<open>child\<close>, \<open>with\<close>, \<open>setConfig\<close> and \<open>getLogger\<close>
  satisfies.  Names: no namespace is empty, every child an object's \<open>children\<close> map
  holds exists, and its namespace is the parent's, a dot, and the key.
\<close>

definition namesOk :: "heap \<Rightarrow> bool" where
  "namesOk h =
     (\<forall>p < length h. namespace (h ! p) \<noteq> []
        \<and> (\<forall>(k, c) \<in> set (children (h ! p)).
              c < length h \<and> namespace (h ! c) = namespace (h ! p) @ ''.'' @ k))"

text \<open>
  Shape: a child is allocated after its parent, no \<open>children\<close> map holds an object twice,
  and no object is in the \<open>children\<close> maps of two parents.
\<close>

definition shapeOk :: "heap \<Rightarrow> bool" where
  "shapeOk h =
     (\<forall>p < length h. distinct (map snd (children (h ! p)))
        \<and> (\<forall>(k, c) \<in> set (children (h ! p)).
              p < c \<and> c < length h
              \<and> (\<forall>p' < length h. \<forall>(k', c') \<in> set (children (h ! p')). c' = c \<longrightarrow> p' = p)))"

text \<open>\<open>desc h a b\<close>: \<open>b\<close> is \<open>a\<close> or is reached from \<open>a\<close> through \<open>children\<close> maps.\<close>

inductive desc :: "heap \<Rightarrow> nat \<Rightarrow> nat \<Rightarrow> bool" for h where
  self: "desc h a a"
| step: "a < length h \<Longrightarrow> (k, c) \<in> set (children (h ! a)) \<Longrightarrow> desc h c b \<Longrightarrow> desc h a b"

text \<open>Two heaps with the same objects' \<open>children\<close> maps.\<close>

definition sameShape :: "heap \<Rightarrow> heap \<Rightarrow> bool" where
  "sameShape h h' = (length h' = length h \<and> (\<forall>p < length h. children (h' ! p) = children (h ! p)))"

text \<open>The heap in which the objects in \<open>S\<close> have received the configuration.\<close>

definition configured :: "Globals \<Rightarrow> LoggerOptions \<Rightarrow> (nat \<Rightarrow> bool) \<Rightarrow> heap \<Rightarrow> heap" where
  "configured g config S h = map (\<lambda>b. if S b then applyConfig g config (h ! b) else h ! b) [0..<length h]"

text \<open>A first segment and the segments after it, joined with dots.\<close>

definition joinDots :: "string \<Rightarrow> string list \<Rightarrow> string" where
  "joinDots w ws = w @ concat (map (\<lambda>c. ''.'' @ c) ws)"

text \<open>
  The registry agrees with the tree: every registered logger exists, and a logger
  registered under a path of several segments is the child, under the last segment, of
  the logger registered under the path without it.
\<close>

definition registryOk :: "State \<Rightarrow> bool" where
  "registryOk st =
     (shapeOk (heap st) \<and> namesOk (heap st)
      \<and> (\<forall>(q, a) \<in> set (loggerRegistry st).
            a < length (heap st)
            \<and> (let parts = split CHR ''.'' q in
                 tl parts \<noteq> [] \<longrightarrow>
                   (case map_of (loggerRegistry st) (joinDots (hd parts) (butlast (tl parts))) of
                      None \<Rightarrow> False
                    | Some pa \<Rightarrow> map_of (children (heap st ! pa)) (last parts) = Some a))))"

text \<open>A later heap: the objects are still there, and so is every entry of a \<open>children\<close> map.\<close>

definition grows :: "heap \<Rightarrow> heap \<Rightarrow> bool" where
  "grows h h' =
     (length h \<le> length h'
      \<and> (\<forall>p < length h. \<forall>k c. map_of (children (h ! p)) k = Some c
            \<longrightarrow> map_of (children (h' ! p)) k = Some c))"

text \<open>
  The states a program can reach from the empty one: by constructing a logger, by
  \<open>child\<close>, \<open>with\<close> and \<open>setConfig\<close> on an existing logger, and by \<open>getLogger\<close>.
\<close>

inductive reachable :: "Globals \<Rightarrow> State \<Rightarrow> bool" for g where
  r_start: "reachable g emptyState"
| r_new: "reachable g st \<Longrightarrow> reachable g (st \<lparr> heap := snd (newLogger g options (heap st)) \<rparr>)"
| r_child: "reachable g st \<Longrightarrow> this < length (heap st) \<Longrightarrow>
     reachable g (st \<lparr> heap := snd (Logger_child g this s b (heap st)) \<rparr>)"
| r_with: "reachable g st \<Longrightarrow> this < length (heap st) \<Longrightarrow>
     reachable g (st \<lparr> heap := snd (Logger_with g this bindings (heap st)) \<rparr>)"
| r_setConfig: "reachable g st \<Longrightarrow> this < length (heap st) \<Longrightarrow>
     Logger_setConfig n g config this (heap st) = Some h' \<Longrightarrow> reachable g (st \<lparr> heap := h' \<rparr>)"
| r_getLogger: "reachable g st \<Longrightarrow> reachable g (snd (getLogger g p st))"


section \<open>Reading a trace\<close>

text \<open>
  A console line is a \<open>console\<close> call with one string argument, as \<open>writeToConsole\<close> makes
  it; the diagnostic of a failed transport has two arguments.
\<close>

fun isConsoleLine :: "Event \<Rightarrow> bool" where
  "isConsoleLine (ConsoleCall m [VStr s]) = True"
| "isConsoleLine _ = False"

fun isTransportCall :: "Event \<Rightarrow> bool" where
  "isTransportCall (TransportCall i lvl ns message entry) = True"
| "isTransportCall _ = False"


text \<open>The transports a trace invokes, by identity and in order.\<close>

fun transportCalls :: "Event list \<Rightarrow> nat list" where
  "transportCalls [] = []"
| "transportCalls (TransportCall i lvl ns message entry # evs) = i # transportCalls evs"
| "transportCalls (ev # evs) = transportCalls evs"


text \<open>The diagnostic \<open>emit\<close> writes when a transport throws \<open>e\<close>.\<close>

definition transportDiagnostic :: "jsval \<Rightarrow> Event" where
  "transportDiagnostic e = ConsoleCall ''error'' [VStr ''[LogTransport] Error in custom transport:'', e]"

text \<open>Example environments and objects.\<close>

definition devNoPino :: Globals where
  "devNoPino = \<lparr> isBrowser = False, isProd = False, stripLogs = False, pinoAvailable = False,
     pinoModule = None, logFileEnabled = False, logfireEnabled = False, basePino = None \<rparr>"

definition prodNoPino :: Globals where
  "prodNoPino = devNoPino \<lparr> isProd := True \<rparr>"

definition throwingTransport :: "nat \<Rightarrow> LogTransport" where
  "throwingTransport i = \<lparr> tid = i, handle = (\<lambda>lvl ns message entry. Some (VError ''Error'' ''sink down'' None)) \<rparr>"

definition quietTransport :: "nat \<Rightarrow> LogTransport" where
  "quietTransport i = \<lparr> tid = i, handle = (\<lambda>lvl ns message entry. None) \<rparr>"

definition exampleNow :: string where
  "exampleNow = ''2026-02-08T14:23:05.123Z''"

definition disabledLogger :: Logger where
  "disabledLogger = Logger_constructor devNoPino (noOptions \<lparr> opt_enabled := Some False \<rparr>)"

definition warnLogger :: Logger where
  "warnLogger = Logger_constructor devNoPino (noOptions \<lparr> opt_level := Some Warn \<rparr>)"

definition twoTransportLogger :: Logger where
  "twoTransportLogger =
     Logger_constructor devNoPino
       (noOptions \<lparr> opt_transports := Some [throwingTransport 1, quietTransport 2] \<rparr>)"

definition threeTransportLogger :: Logger where
  "threeTransportLogger =
     Logger_constructor devNoPino
       (noOptions \<lparr> opt_transports := Some [quietTransport 1, throwingTransport 2, quietTransport 3] \<rparr>)"

text \<open>
  Contexts: \<open>{error: new Error("boom"), retries: 3}\<close>, as it is and frozen; one with a field
  \<open>msg\<close>; and \<open>JSON.parse('{"error": 0, "__proto__": 7}')\<close> with \<open>error\<close> then set to the error.
\<close>

definition boomContext :: props where
  "boomContext = [(''error'', VError ''Error'' ''boom'' None), (''retries'', VNum 3)]"


definition frozenBoom :: jsval where
  "frozenBoom = VObj ObjectProto boomContext Frozen"




definition messageEntry :: "string \<Rightarrow> Entry" where
  "messageEntry message = \<lparr> entry_fields = [(''msg'', VStr message)], entry_proto = None \<rparr>"

text \<open>A root logger \<open>A\<close>; the same with children \<open>B\<close> and \<open>C\<close>; a root with one transport.\<close>

definition rootHeap :: "Globals \<Rightarrow> heap" where
  "rootHeap g = snd (newLogger g (noOptions \<lparr> opt_namespace := Some ''A'' \<rparr>) [])"

definition familyHeap :: "Globals \<Rightarrow> heap" where
  "familyHeap g = snd (Logger_child g 0 ''C'' None (snd (Logger_child g 0 ''B'' None (rootHeap g))))"

definition transportHeap :: heap where
  "transportHeap = snd (newLogger prodNoPino (noOptions \<lparr> opt_transports := Some [quietTransport 1] \<rparr>) [])"

definition lateTransport :: LoggerOptions where
  "lateTransport = noOptions \<lparr> opt_transports := Some [quietTransport 7] \<rparr>"

text \<open>The state after \<open>getLogger("A")\<close> in a fresh process.\<close>

definition stateA :: State where
  "stateA = snd (getLogger devNoPino ''A'' emptyState)"

text \<open>
  A Node.js host where \<open>require('pino')\<close> succeeds and the factory throws on every
  configuration, and one where \<open>require('pino')\<close> itself throws.
\<close>

definition nodeProcess :: Process where
  "nodeProcess = \<lparr> process_env = Some (\<lambda>name. None), process_pid = 4242 \<rparr>"

definition wildcardError :: jsval where
  "wildcardError = VError ''TypeError'' ''Cannot read properties of undefined'' None"

definition brokenPinoHost :: Host where
  "brokenPinoHost =
     \<lparr> window_defined = False, host_process = Some nodeProcess, require_defined = True,
       require_pino = Inr (Some \<lparr> transport_is_function = True,
                                pino_factory = (\<lambda>cfg. Some wildcardError) \<rparr>),
       os_hostname = Inr ''build-host'' \<rparr>"

definition missingPinoHost :: Host where
  "missingPinoHost =
     \<lparr> window_defined = False, host_process = Some nodeProcess, require_defined = True,
       require_pino = Inl (VError ''Error'' ''Cannot find module pino'' None),
       os_hostname = Inr ''build-host'' \<rparr>"


section \<open>Properties of emission\<close>

lemma Logger_log_emit:
  "Logger_log lvl g now this message args = emit g now this lvl message args (lvl \<noteq> Debug)"
  by (cases lvl) (simp_all add: Logger_debug_def Logger_info_def Logger_warn_def Logger_error_def)

lemma callTransports_events:
  "callTransports ts lvl ns message entry = (evs, r) \<Longrightarrow> list_all isTransportCall evs"
  by (induction ts arbitrary: evs r) (auto split: option.splits prod.splits)

lemma transport_call_not_console_line: "isTransportCall e \<Longrightarrow> \<not> isConsoleLine e"
  by (cases e) simp_all

lemma transportStage_no_console_line:
  "filter isConsoleLine (transportStage this lvl message entry) = []"
proof (cases "callTransports (transports this) lvl (namespace this) message entry")
  case (Pair evs r)
  from callTransports_events [OF Pair] have "filter isConsoleLine evs = []"
    by (auto simp: filter_empty_conv list_all_iff dest: transport_call_not_console_line)
  show ?thesis
  proof (cases "transports this = []")
    case True
    then show ?thesis by (simp add: transportStage_def)
  next
    case False
    with Pair \<open>filter isConsoleLine evs = []\<close> show ?thesis
      by (cases r) (simp_all add: transportStage_def)
  qed
qed

lemma callTransports_throw:
  "\<forall>p \<in> set pre. handle p lvl ns message entry = None \<Longrightarrow>
   handle t lvl ns message entry = Some e \<Longrightarrow>
   callTransports (pre @ t # post) lvl ns message entry =
     (map (\<lambda>p. TransportCall (tid p) lvl ns message entry) (pre @ [t]), Some e)"
  by (induction pre) auto

lemma callTransports_all:
  "\<forall>p \<in> set ts. handle p lvl ns message entry = None \<Longrightarrow>
   callTransports ts lvl ns message entry =
     (map (\<lambda>p. TransportCall (tid p) lvl ns message entry) ts, None)"
  by (induction ts) auto

subsection \<open>Building the entry\<close>






text \<open>A call without a context.\<close>

lemma makeEntry_no_context:
  "args = [] \<or> \<not> isPlainObject (hd args) \<Longrightarrow> makeEntry message args = Inr (messageEntry message, args)"
  by (cases args) (auto simp: makeEntry_def buildEntry_def bindE_def messageEntry_def)

text \<open>A context that is sealed or frozen and holds an error: the \<open>delete\<close> throws.\<close>

lemma makeEntry_sealed:
  "isPlainObject (VObj pr c integ) \<Longrightarrow> integ \<noteq> Unsealed \<Longrightarrow> map_of c ''error'' = Some (VError n m s) \<Longrightarrow>
   makeEntry message (VObj pr c integ # rest) = Inl (typeError ''Cannot delete property error'')"
  by (simp add: makeEntry_def bindE_def)



text \<open>What a call that passes the gate does.\<close>

lemma emit_passes:
  "lvl = Error \<or> enabled this \<and> (pinoAvailable g \<or> levelEnabled lvl (minLevel this)) \<Longrightarrow>
   emit g now this lvl message args wc =
     (case makeEntry message args of
        Inl e \<Rightarrow> ([], Some e)
      | Inr (entry, args') \<Rightarrow>
          (BackendCall (backend this) lvl entry args'
           # transportStage this lvl message (entry_fields entry)
           @ consoleStage now this lvl message wc, None))"
  by (auto simp: emit_def)

subsection \<open>The constructor's enabled rule\<close>

text \<open>
  Claim C6.  For every options value the constructor computes \<open>enabled\<close> as: false if the
  process-wide strip flag is set; else false if \<open>options.enabled === false\<close>; else false if
  in production mode and no structured backend is available and no transports were
  supplied (none given, or an empty list); else true.
\<close>

theorem constructor_enabled_rule:
  "enabled (Logger_constructor g options) =
     (if stripLogs g then False
      else if opt_enabled options = Some False then False
      else if isProd g \<and> \<not> pinoAvailable g
              \<and> (opt_transports options = None \<or> opt_transports options = Some []) then False
      else True)"
  by (auto simp: Logger_constructor_def Let_def split: option.splits)

text \<open>
  In production without pino: no options gives a disabled logger, one transport enables
  it; \<open>enabled: false\<close> disables a development logger.
\<close>

theorem constructor_enabled_rule_witness:
  "enabled (Logger_constructor prodNoPino noOptions) = False
   \<and> enabled (Logger_constructor prodNoPino (noOptions \<lparr> opt_transports := Some [quietTransport 1] \<rparr>)) = True
   \<and> enabled (Logger_constructor devNoPino (noOptions \<lparr> opt_enabled := Some False \<rparr>)) = False"
  using constructor_enabled_rule [of prodNoPino noOptions]
    constructor_enabled_rule [of prodNoPino "noOptions \<lparr> opt_transports := Some [quietTransport 1] \<rparr>"]
    constructor_enabled_rule [of devNoPino "noOptions \<lparr> opt_enabled := Some False \<rparr>"]
  by (simp add: prodNoPino_def devNoPino_def noOptions_def)

subsection \<open>The gate\<close>

text \<open>
  Claim C2, as the code behaves.  For every level other than \<open>error\<close>, a call on a logger
  with \<open>enabled = false\<close> makes no backend, transport or console call and returns, and
  likewise when pino is not available and the level is below the logger's minimum level.
  An \<open>error\<close> call passes both tests whatever the logger's state, and then builds its
  entry.  If that returns, the call invokes the backend with the entry, runs the transport
  stage, writes the console line unless \<open>disableConsole\<close> is set, and returns; so it is for
  every call without a context.  If it throws, the \<open>error\<close> call throws and has called
  neither the backend nor the console; so it is for every sealed or frozen context whose
  \<open>error\<close> is an \<open>Error\<close>.
\<close>

theorem gate_and_error_bypass:
  "(lvl \<noteq> Error \<and> \<not> enabled this \<longrightarrow> Logger_log lvl g now this message args = ([], None))
   \<and> (lvl \<noteq> Error \<and> \<not> pinoAvailable g \<and> levelOrder lvl < levelOrder (minLevel this)
        \<longrightarrow> Logger_log lvl g now this message args = ([], None))
   \<and> Logger_error g now this message args =
        (case makeEntry message args of
           Inl e \<Rightarrow> ([], Some e)
         | Inr (entry, args') \<Rightarrow>
             (BackendCall (backend this) Error entry args'
              # transportStage this Error message (entry_fields entry)
              @ (if disableConsole this then []
                 else [ConsoleCall ''error'' [VStr (formatConsoleMessage now (namespace this) message)]]),
              None))
   \<and> (args = [] \<or> \<not> isPlainObject (hd args)
        \<longrightarrow> makeEntry message args = Inr (messageEntry message, args))
   \<and> (isPlainObject (VObj pr c integ) \<and> integ \<noteq> Unsealed \<and> map_of c ''error'' = Some (VError n m s)
        \<longrightarrow> Logger_error g now this message (VObj pr c integ # rest) =
              ([], Some (typeError ''Cannot delete property error'')))"
proof (intro conjI impI)
  assume "lvl \<noteq> Error \<and> \<not> enabled this"
  then show "Logger_log lvl g now this message args = ([], None)"
    by (simp add: Logger_log_emit emit_def)
next
  assume "lvl \<noteq> Error \<and> \<not> pinoAvailable g \<and> levelOrder lvl < levelOrder (minLevel this)"
  then show "Logger_log lvl g now this message args = ([], None)"
    by (simp add: Logger_log_emit emit_def levelEnabled_def)
next
  show "Logger_error g now this message args =
        (case makeEntry message args of
           Inl e \<Rightarrow> ([], Some e)
         | Inr (entry, args') \<Rightarrow>
             (BackendCall (backend this) Error entry args'
              # transportStage this Error message (entry_fields entry)
              @ (if disableConsole this then []
                 else [ConsoleCall ''error'' [VStr (formatConsoleMessage now (namespace this) message)]]),
              None))"
    by (auto simp: Logger_error_def emit_passes consoleStage_def writeToConsole_def
        split: sum.splits)
next
  assume "args = [] \<or> \<not> isPlainObject (hd args)"
  then show "makeEntry message args = Inr (messageEntry message, args)"
    by (rule makeEntry_no_context)
next
  assume "isPlainObject (VObj pr c integ) \<and> integ \<noteq> Unsealed \<and> map_of c ''error'' = Some (VError n m s)"
  then have "makeEntry message (VObj pr c integ # rest) = Inl (typeError ''Cannot delete property error'')"
    by (simp add: makeEntry_sealed)
  then show "Logger_error g now this message (VObj pr c integ # rest) =
              ([], Some (typeError ''Cannot delete property error''))"
    by (simp add: Logger_error_def emit_passes)
qed

text \<open>
  On \<open>new Logger({enabled: false})\<close>, \<open>warn("x")\<close> does nothing and \<open>error("x")\<close> makes one
  backend call and one console line; \<open>info\<close> on a logger of minimum level \<open>warn\<close> without
  pino does nothing.  But \<open>error("x", Object.freeze({error: new Error("boom"), retries: 3}))\<close>
  on that logger throws a \<open>TypeError\<close>, and has called neither the backend nor the console.
\<close>

theorem gate_and_error_bypass_witness:
  "Logger_log Warn devNoPino exampleNow disabledLogger ''x'' [] = ([], None)
   \<and> Logger_log Info devNoPino exampleNow warnLogger ''x'' [] = ([], None)
   \<and> Logger_error devNoPino exampleNow disabledLogger ''x'' [] =
        ([BackendCall (ConsoleBackend ''Anonymous'') Error (messageEntry ''x'') [],
          ConsoleCall ''error'' [VStr ''14:23:05 [Anonymous] x'']], None)
   \<and> disableConsole disabledLogger = False
   \<and> Logger_error devNoPino exampleNow disabledLogger ''x'' [frozenBoom] =
        ([], Some (VError ''TypeError'' ''Cannot delete property error'' None))"
  using gate_and_error_bypass [where lvl = Warn and this = disabledLogger and g = devNoPino
      and now = exampleNow and message = "''x''" and args = "[]"
      and pr = ObjectProto and c = boomContext and integ = Frozen
      and n = "''Error''" and m = "''boom''" and s = None and rest = "[]"]
    gate_and_error_bypass [where lvl = Info and this = warnLogger and g = devNoPino
      and now = exampleNow and message = "''x''" and args = "[]"
      and pr = ObjectProto and c = boomContext and integ = Frozen
      and n = "''Error''" and m = "''boom''" and s = None and rest = "[]"]
  by (simp add: disabledLogger_def warnLogger_def devNoPino_def noOptions_def Let_def
      Logger_constructor_def orString_def buildBackend_def transportStage_def
      formatConsoleMessage_def substring_def exampleNow_def frozenBoom_def boomContext_def
      typeError_def)

subsection \<open>The console stage\<close>

text \<open>
  Claim C3, as the code behaves.  Under every configuration a \<open>debug\<close> call writes no
  console line.  An \<open>info\<close>, \<open>warn\<close> or \<open>error\<close> call that passes the gate and builds its entry
  writes exactly one console line, with the console method of its level, unless
  \<open>disableConsole\<close> is set, and then it writes none; so it is for every call without a
  context.  When building the entry throws, the call throws and writes no line, also with
  \<open>disableConsole\<close> unset; so it is for every sealed or frozen context whose \<open>error\<close> is an
  \<open>Error\<close>.  The line is \<open>HH:MM:SS [namespace] message\<close>: the eight characters that follow
  the eleven characters of the date in the ISO timestamp, then the namespace in brackets,
  then the message.
\<close>

theorem console_stage_policy:
  "filter isConsoleLine (fst (Logger_debug g now this message args)) = []
   \<and> (lvl \<noteq> Debug \<and> (lvl = Error \<or> enabled this \<and> (pinoAvailable g \<or> levelEnabled lvl (minLevel this)))
        \<longrightarrow> filter isConsoleLine (fst (Logger_log lvl g now this message args)) =
             (case makeEntry message args of
                Inl e \<Rightarrow> []
              | Inr made \<Rightarrow>
                  if disableConsole this then []
                  else [ConsoleCall (levelName lvl) [VStr (formatConsoleMessage now (namespace this) message)]]))
   \<and> (args = [] \<or> \<not> isPlainObject (hd args)
        \<longrightarrow> makeEntry message args = Inr (messageEntry message, args))
   \<and> (lvl \<noteq> Debug \<and> (lvl = Error \<or> enabled this \<and> (pinoAvailable g \<or> levelEnabled lvl (minLevel this)))
      \<and> isPlainObject (VObj pr c integ) \<and> integ \<noteq> Unsealed \<and> map_of c ''error'' = Some (VError n m s)
        \<longrightarrow> Logger_log lvl g now this message (VObj pr c integ # tail) =
              ([], Some (typeError ''Cannot delete property error'')))
   \<and> (length date = 11 \<and> length time = 8
        \<longrightarrow> formatConsoleMessage (date @ time @ rest) ns msg = time @ '' ['' @ ns @ ''] '' @ msg)"
proof (intro conjI impI)
  show "filter isConsoleLine (fst (Logger_debug g now this message args)) = []"
    by (simp add: Logger_debug_def emit_def consoleStage_def transportStage_no_console_line
        split: sum.splits)
next
  assume a: "lvl \<noteq> Debug \<and> (lvl = Error \<or> enabled this \<and> (pinoAvailable g \<or> levelEnabled lvl (minLevel this)))"
  then have "Logger_log lvl g now this message args =
     (case makeEntry message args of
        Inl e \<Rightarrow> ([], Some e)
      | Inr (entry, args') \<Rightarrow>
          (BackendCall (backend this) lvl entry args'
           # transportStage this lvl message (entry_fields entry)
           @ consoleStage now this lvl message True, None))"
    by (simp add: Logger_log_emit emit_passes)
  with a show "filter isConsoleLine (fst (Logger_log lvl g now this message args)) =
             (case makeEntry message args of
                Inl e \<Rightarrow> []
              | Inr made \<Rightarrow>
                  if disableConsole this then []
                  else [ConsoleCall (levelName lvl) [VStr (formatConsoleMessage now (namespace this) message)]])"
    by (auto simp: consoleStage_def writeToConsole_def transportStage_no_console_line
        split: sum.splits)
next
  assume "args = [] \<or> \<not> isPlainObject (hd args)"
  then show "makeEntry message args = Inr (messageEntry message, args)"
    by (rule makeEntry_no_context)
next
  assume a: "lvl \<noteq> Debug \<and> (lvl = Error \<or> enabled this \<and> (pinoAvailable g \<or> levelEnabled lvl (minLevel this)))
      \<and> isPlainObject (VObj pr c integ) \<and> integ \<noteq> Unsealed \<and> map_of c ''error'' = Some (VError n m s)"
  then have "makeEntry message (VObj pr c integ # tail) = Inl (typeError ''Cannot delete property error'')"
    by (simp add: makeEntry_sealed)
  with a show "Logger_log lvl g now this message (VObj pr c integ # tail) =
              ([], Some (typeError ''Cannot delete property error''))"
    by (simp add: Logger_log_emit emit_passes)
next
  assume "length date = 11 \<and> length time = 8"
  then show "formatConsoleMessage (date @ time @ rest) ns msg = time @ '' ['' @ ns @ ''] '' @ msg"
    by (simp add: formatConsoleMessage_def substring_def)
qed

text \<open>
  A \<open>debug\<close> call on a logger whose first transport throws writes no console line (the
  diagnostic is not one); \<open>warn("x")\<close> writes \<open>14:23:05 [Anonymous] x\<close>; a \<open>warn\<close> call with the
  frozen context \<open>{error: new Error("boom"), retries: 3}\<close> throws and writes nothing, on a
  logger that has \<open>disableConsole\<close> unset.
\<close>

theorem console_stage_policy_witness:
  "filter isConsoleLine (fst (Logger_debug devNoPino exampleNow twoTransportLogger ''x'' [])) = []
   \<and> filter isConsoleLine (fst (Logger_log Warn devNoPino exampleNow warnLogger ''x'' [])) =
        [ConsoleCall ''warn'' [VStr ''14:23:05 [Anonymous] x'']]
   \<and> disableConsole warnLogger = False
   \<and> Logger_log Warn devNoPino exampleNow warnLogger ''x'' [frozenBoom] =
        ([], Some (VError ''TypeError'' ''Cannot delete property error'' None))
   \<and> formatConsoleMessage (''2026-02-08T'' @ ''14:23:05'' @ ''.123Z'') ''A.B'' ''ready'' = ''14:23:05 [A.B] ready''"
  using console_stage_policy [where g = devNoPino and now = exampleNow
      and this = twoTransportLogger and message = "''x''" and args = "[]" and lvl = Warn
      and date = "''2026-02-08T''" and time = "''14:23:05''" and rest = "''.123Z''"
      and ns = "''A.B''" and msg = "''ready''"
      and pr = ObjectProto and c = boomContext and integ = Frozen
      and n = "''Error''" and m = "''boom''" and s = None and tail = "[]"]
    console_stage_policy [where g = devNoPino and now = exampleNow
      and this = warnLogger and message = "''x''" and args = "[]" and lvl = Warn
      and date = "''2026-02-08T''" and time = "''14:23:05''" and rest = "''.123Z''"
      and ns = "''A.B''" and msg = "''ready''"
      and pr = ObjectProto and c = boomContext and integ = Frozen
      and n = "''Error''" and m = "''boom''" and s = None and tail = "[]"]
  by (simp add: warnLogger_def devNoPino_def noOptions_def Logger_constructor_def orString_def Let_def
      formatConsoleMessage_def substring_def exampleNow_def levelEnabled_def frozenBoom_def
      boomContext_def typeError_def)

subsection \<open>Transport failures\<close>

text \<open>
  Claim C1, as the code has it.  On a call that passes the gate and has built its entry,
  if the transports before \<open>t\<close> return and \<open>t.handle\<close> throws \<open>e\<close>, then the call still
  completes and throws nothing: the backend is called, the transports up to and including
  \<open>t\<close> are invoked in order with the same level, namespace, message and copy of the entry,
  the transports after \<open>t\<close> are not invoked, the failure is reported once as a console
  diagnostic, and the console stage runs as usual.
\<close>

theorem transport_failure_aborts_fanout:
  assumes "transports this = pre @ t # post"
    and "makeEntry message args = Inr (entry, args')"
    and "\<forall>p \<in> set pre. handle p lvl (namespace this) message (entry_fields entry) = None"
    and "handle t lvl (namespace this) message (entry_fields entry) = Some e"
    and "lvl = Error \<or> enabled this \<and> (pinoAvailable g \<or> levelEnabled lvl (minLevel this))"
  shows "Logger_log lvl g now this message args =
     (BackendCall (backend this) lvl entry args'
      # map (\<lambda>p. TransportCall (tid p) lvl (namespace this) message (entry_fields entry)) (pre @ [t])
      @ [transportDiagnostic e]
      @ consoleStage now this lvl message (lvl \<noteq> Debug), None)"
proof -
  have "transportStage this lvl message (entry_fields entry) =
      map (\<lambda>p. TransportCall (tid p) lvl (namespace this) message (entry_fields entry)) (pre @ [t])
      @ [transportDiagnostic e]"
    using callTransports_throw [OF assms(3) assms(4), of post] assms(1)
    by (simp add: transportStage_def transportDiagnostic_def)
  with assms(2) assms(5) show ?thesis
    by (simp add: Logger_log_emit emit_passes)
qed

text \<open>With transports 1, 2, 3 of which 2 throws: 1 and 2 are invoked, 3 is not.\<close>

theorem transport_failure_aborts_fanout_witness:
  "Logger_log Info devNoPino exampleNow threeTransportLogger ''x'' [] =
     ([BackendCall (ConsoleBackend ''Anonymous'') Info (messageEntry ''x'') [],
       TransportCall 1 Info ''Anonymous'' ''x'' [(''msg'', VStr ''x'')],
       TransportCall 2 Info ''Anonymous'' ''x'' [(''msg'', VStr ''x'')],
       transportDiagnostic (VError ''Error'' ''sink down'' None),
       ConsoleCall ''info'' [VStr ''14:23:05 [Anonymous] x'']], None)"
  using transport_failure_aborts_fanout [where this = threeTransportLogger
      and pre = "[quietTransport 1]" and t = "throwingTransport 2" and post = "[quietTransport 3]"
      and lvl = Info and message = "''x''" and args = "[]" and g = devNoPino and now = exampleNow
      and e = "VError ''Error'' ''sink down'' None" and entry = "messageEntry ''x''" and args' = "[]"]
  by (simp add: threeTransportLogger_def devNoPino_def noOptions_def Logger_constructor_def
      Let_def orString_def buildBackend_def quietTransport_def throwingTransport_def
      consoleStage_def writeToConsole_def formatConsoleMessage_def substring_def exampleNow_def
      makeEntry_no_context messageEntry_def levelEnabled_def)

lemma transportCalls_append:
  "transportCalls (xs @ ys) = transportCalls xs @ transportCalls ys"
  by (induction xs rule: transportCalls.induct) simp_all

text \<open>
  Claim C1 as stated fails: with transports 1 and 2, where 1 throws, an \<open>info\<close> call
  invokes transport 1 only.
\<close>

theorem later_transports_skipped_counterexample:
  "map tid (transports twoTransportLogger) = [1, 2]
   \<and> handle (throwingTransport 1) Info ''Anonymous'' ''x'' [(''msg'', VStr ''x'')]
        = Some (VError ''Error'' ''sink down'' None)
   \<and> transportCalls (fst (Logger_info devNoPino exampleNow twoTransportLogger ''x'' [])) = [1]"
  by (simp add: twoTransportLogger_def devNoPino_def noOptions_def Logger_constructor_def
      Let_def orString_def quietTransport_def throwingTransport_def Logger_info_def emit_def
      levelEnabled_def transportStage_def consoleStage_def writeToConsole_def
      transportCalls_append makeEntry_no_context)






subsection \<open>Error lifting\<close>




section \<open>Properties of the logger tree\<close>

lemma constructor_namespace:
  "namespace (Logger_constructor g options) = orString (opt_namespace options) ''Anonymous''"
  by (simp add: Logger_constructor_def Let_def)

lemma constructor_children: "children (Logger_constructor g options) = []"
  by (simp add: Logger_constructor_def Let_def)

lemma orString_nonempty: "d \<noteq> [] \<Longrightarrow> orString x d \<noteq> []"
  by (simp add: orString_def split: option.splits)

lemma orString_Some: "s \<noteq> [] \<Longrightarrow> orString (Some s) d = s"
  by (simp add: orString_def)

lemma update_absent: "k \<notin> fst ` set al \<Longrightarrow> AList.update k v al = al @ [(k, v)]"
  by (induction al) auto

lemma child_cached:
  "map_of (children (h ! this)) s = Some c \<Longrightarrow> Logger_child g this s b h = (c, h)"
  by (simp add: Logger_child_def)

lemma child_fresh:
  assumes "map_of (children (h ! this)) s = None" and "this < length h"
  shows "Logger_child g this s b h =
           (length h,
            (h @ [Logger_constructor g
                  \<lparr> opt_namespace = Some (namespace (h ! this) @ ''.'' @ s),
                    opt_enabled = Some (enabled (h ! this)),
                    opt_level = Some (minLevel (h ! this)),
                    opt_bindings = b,
                    opt_logDir = Some (logDir (h ! this)),
                    opt_logFileName = Some (logFileName (h ! this)),
                    opt_disableConsole = Some (disableConsole (h ! this)),
                    opt_maxSize = maxSize (h ! this),
                    opt_maxFiles = maxFiles (h ! this),
                    opt_frequency = frequency (h ! this),
                    opt_transports = Some (transports (h ! this)) \<rparr>])
             [this := (h ! this) \<lparr> children := children (h ! this) @ [(s, length h)] \<rparr>])"
proof -
  from assms(1) have "s \<notin> fst ` set (children (h ! this))"
    by (simp add: map_of_eq_None_iff)
  then have "AList.update s (length h) (children (h ! this)) = children (h ! this) @ [(s, length h)]"
    by (rule update_absent)
  with assms show ?thesis
    by (simp add: Logger_child_def newLogger_def nth_append)
qed


lemma child_twice:
  assumes "this < length h" and "Logger_child g this s b1 h = (c, h1)"
  shows "Logger_child g this s b2 h1 = (c, h1)"
proof (cases "map_of (children (h ! this)) s")
  case None
  from child_fresh [OF None assms(1), of g b1] assms(2)
  have c: "c = length h" and h1: "h1 ! this = (h ! this) \<lparr> children := children (h ! this) @ [(s, length h)] \<rparr>"
    using assms(1) by auto
  from None have "map_of (children (h1 ! this)) s = Some c"
    by (simp add: h1 c map_add_def)
  then show ?thesis by (rule child_cached)
next
  case (Some c')
  with assms(2) have "c' = c" "h1 = h" by (simp_all add: Logger_child_def)
  with Some show ?thesis by (simp add: child_cached)
qed

lemma namesOk_child:
  assumes "namesOk h" and "this < length h" and "Logger_child g this s b h = (c, h1)"
  shows "namesOk h1 \<and> map_of (children (h1 ! this)) s = Some c \<and> length h \<le> length h1"
proof (cases "map_of (children (h ! this)) s")
  case (Some c')
  with assms show ?thesis by (simp add: Logger_child_def)
next
  case None
  let ?new = "Logger_constructor g
                  \<lparr> opt_namespace = Some (namespace (h ! this) @ ''.'' @ s),
                    opt_enabled = Some (enabled (h ! this)),
                    opt_level = Some (minLevel (h ! this)),
                    opt_bindings = b,
                    opt_logDir = Some (logDir (h ! this)),
                    opt_logFileName = Some (logFileName (h ! this)),
                    opt_disableConsole = Some (disableConsole (h ! this)),
                    opt_maxSize = maxSize (h ! this),
                    opt_maxFiles = maxFiles (h ! this),
                    opt_frequency = frequency (h ! this),
                    opt_transports = Some (transports (h ! this)) \<rparr>"
  from child_fresh [OF None assms(2), of g b] assms(3)
  have c: "c = length h"
    and h1: "h1 = (h @ [?new])[this := (h ! this) \<lparr> children := children (h ! this) @ [(s, length h)] \<rparr>]"
    by auto
  have len: "length h1 = Suc (length h)" by (simp add: h1)
  have newns: "namespace ?new = namespace (h ! this) @ ''.'' @ s"
    by (simp add: constructor_namespace orString_Some)
  have newch: "children ?new = []" by (rule constructor_children)
  have ns: "\<And>p. p < length h1 \<Longrightarrow> namespace (h1 ! p) = (if p = length h then namespace (h ! this) @ ''.'' @ s else namespace (h ! p))"
    using assms(2) newns by (auto simp: h1 nth_list_update nth_append)
  have ch: "\<And>p. p < length h1 \<Longrightarrow> children (h1 ! p) =
      (if p = this then children (h ! this) @ [(s, length h)] else if p = length h then [] else children (h ! p))"
    using assms(2) newch by (auto simp: h1 nth_list_update nth_append)
  have "namesOk h1"
    unfolding namesOk_def
  proof (intro allI impI conjI ballI)
    fix p assume p: "p < length h1"
    show "namespace (h1 ! p) \<noteq> []"
      using assms(1) assms(2) p len by (auto simp: ns namesOk_def less_Suc_eq)
  next
    fix p x assume p: "p < length h1" and x: "x \<in> set (children (h1 ! p))"
    obtain k c' where kc: "x = (k, c')" by (cases x)
    have "c' < length h1 \<and> namespace (h1 ! c') = namespace (h1 ! p) @ ''.'' @ k"
    proof (cases "(k, c') = (s, length h) \<and> p = this")
      case True
      then show ?thesis using assms(2) len by (simp add: ns)
    next
      case False
      with x kc p have old: "(k, c') \<in> set (children (h ! p))" and pl: "p < length h"
        using len assms(2) by (auto simp: ch less_Suc_eq split: if_splits)
      with assms(1) have "c' < length h" "namespace (h ! c') = namespace (h ! p) @ ''.'' @ k"
        by (auto simp: namesOk_def)
      then show ?thesis using pl len by (simp add: ns)
    qed
    then show "case x of (k, c) \<Rightarrow> c < length h1 \<and> namespace (h1 ! c) = namespace (h1 ! p) @ ''.'' @ k"
      by (simp add: kc)
  qed
  moreover have "map_of (children (h1 ! this)) s = Some c"
    using assms(2) None len by (simp add: ch c map_add_def)
  ultimately show ?thesis using len by simp
qed

lemma applyConfig_children: "children (applyConfig g config l) = children l"
  by (simp add: applyConfig_def Let_def split: option.splits)

lemma applyConfig_namespace: "namespace (applyConfig g config l) = namespace l"
  by (simp add: applyConfig_def Let_def split: option.splits)

lemma configured_length: "length (configured g config S h) = length h"
  by (simp add: configured_def)

lemma configured_nth:
  "b < length h \<Longrightarrow> configured g config S h ! b = (if S b then applyConfig g config (h ! b) else h ! b)"
  by (simp add: configured_def)

lemma sameShape_refl: "sameShape h h"
  by (simp add: sameShape_def)

lemma sameShape_sym: "sameShape h h' \<Longrightarrow> sameShape h' h"
  by (simp add: sameShape_def)

lemma sameShape_trans: "sameShape h h' \<Longrightarrow> sameShape h' h'' \<Longrightarrow> sameShape h h''"
  by (simp add: sameShape_def)

lemma sameShape_configured: "sameShape h (configured g config S h)"
  by (simp add: sameShape_def configured_length configured_nth applyConfig_children)

lemma desc_sameShape': "desc h a b \<Longrightarrow> sameShape h h' \<Longrightarrow> desc h' a b"
proof (induction rule: desc.induct)
  case (self a)
  show ?case by (rule desc.self)
next
  case (step a k c b)
  then show ?case by (auto simp: sameShape_def intro: desc.step)
qed

lemma desc_sameShape: "sameShape h h' \<Longrightarrow> desc h' a = desc h a"
proof (rule ext, rule iffI)
  fix b assume s: "sameShape h h'" and d: "desc h' a b"
  from d sameShape_sym [OF s] show "desc h a b" by (rule desc_sameShape')
next
  fix b assume s: "sameShape h h'" and d: "desc h a b"
  from d s show "desc h' a b" by (rule desc_sameShape')
qed

lemma shapeOk_sameShape: "sameShape h h' \<Longrightarrow> shapeOk h \<Longrightarrow> shapeOk h'"
  by (simp add: sameShape_def shapeOk_def)

lemma shapeOk_child_bounds:
  "shapeOk h \<Longrightarrow> p < length h \<Longrightarrow> (k, c) \<in> set (children (h ! p)) \<Longrightarrow> p < c \<and> c < length h"
  by (fastforce simp: shapeOk_def)

lemma shapeOk_unique_parent:
  "shapeOk h \<Longrightarrow> p < length h \<Longrightarrow> (k, c) \<in> set (children (h ! p)) \<Longrightarrow>
   p' < length h \<Longrightarrow> (k', c) \<in> set (children (h ! p')) \<Longrightarrow> p' = p"
proof -
  assume ok: "shapeOk h" and p: "p < length h" and c: "(k, c) \<in> set (children (h ! p))"
    and p': "p' < length h" and c': "(k', c) \<in> set (children (h ! p'))"
  from ok p have "\<forall>(k, c) \<in> set (children (h ! p)).
      (\<forall>p' < length h. \<forall>(k', c') \<in> set (children (h ! p')). c' = c \<longrightarrow> p' = p)"
    by (simp add: shapeOk_def case_prod_unfold)
  with c have "\<forall>p' < length h. \<forall>(k', c') \<in> set (children (h ! p')). c' = c \<longrightarrow> p' = p"
    by fastforce
  with p' have "\<forall>(k', c') \<in> set (children (h ! p')). c' = c \<longrightarrow> p' = p"
    by simp
  with c' show "p' = p" by fastforce
qed

lemma desc_ge: "desc h a b \<Longrightarrow> shapeOk h \<Longrightarrow> a \<le> b"
proof (induction rule: desc.induct)
  case (self a)
  show ?case by simp
next
  case (step a k c b)
  then show ?case using shapeOk_child_bounds [of h a k c] by simp
qed

lemma desc_tail:
  "desc h a b \<Longrightarrow> a \<noteq> b \<Longrightarrow> \<exists>p k. desc h a p \<and> p < length h \<and> (k, b) \<in> set (children (h ! p))"
proof (induction rule: desc.induct)
  case (self a)
  then show ?case by simp
next
  case (step a k c b)
  show ?case
  proof (cases "c = b")
    case True
    with step.hyps show ?thesis by (blast intro: desc.self)
  next
    case False
    with step.IH obtain p k' where "desc h c p" "p < length h" "(k', b) \<in> set (children (h ! p))"
      by blast
    with step.hyps show ?thesis by (blast intro: desc.step)
  qed
qed

lemma desc_chain:
  "desc h x b \<Longrightarrow> shapeOk h \<Longrightarrow> desc h y b \<Longrightarrow> desc h x y \<or> desc h y x"
proof (induction arbitrary: y rule: desc.induct)
  case (self a)
  then show ?case by simp
next
  case (step a k c b)
  from step.IH [OF step.prems] have "desc h c y \<or> desc h y c" .
  then show ?case
  proof
    assume "desc h c y"
    with step.hyps show ?thesis by (blast intro: desc.step)
  next
    assume yc: "desc h y c"
    show ?thesis
    proof (cases "y = c")
      case True
      with step.hyps show ?thesis by (blast intro: desc.step desc.self)
    next
      case False
      with desc_tail [OF yc] obtain p k' where p: "desc h y p" "p < length h" "(k', c) \<in> set (children (h ! p))"
        by blast
      from shapeOk_unique_parent [OF step.prems(1) step.hyps(1) step.hyps(2) p(2) p(3)]
      have "p = a" .
      with p(1) show ?thesis by simp
    qed
  qed
qed

lemma siblings_disjoint:
  assumes "shapeOk h" and "a < length h"
    and "(k1, c1) \<in> set (children (h ! a))" and "(k2, c2) \<in> set (children (h ! a))"
    and "c1 \<noteq> c2" and "desc h c1 b" and "desc h c2 b"
  shows False
proof -
  have aux: "\<And>k c k' c'. (k, c) \<in> set (children (h ! a)) \<Longrightarrow> (k', c') \<in> set (children (h ! a)) \<Longrightarrow>
      c \<noteq> c' \<Longrightarrow> desc h c c' \<Longrightarrow> False"
  proof -
    fix k c k' c'
    assume c: "(k, c) \<in> set (children (h ! a))" and c': "(k', c') \<in> set (children (h ! a))"
      and ne: "c \<noteq> c'" and d: "desc h c c'"
    from desc_tail [OF d ne] obtain p k'' where p: "desc h c p" "p < length h" "(k'', c') \<in> set (children (h ! p))"
      by blast
    from shapeOk_unique_parent [OF assms(1) assms(2) c' p(2) p(3)] have "p = a" .
    with p(1) desc_ge [OF _ assms(1)] have "c \<le> a" by blast
    moreover from shapeOk_child_bounds [OF assms(1) assms(2) c] have "a < c" by simp
    ultimately show False by simp
  qed
  from desc_chain [OF assms(6) assms(1) assms(7)] have "desc h c1 c2 \<or> desc h c2 c1" .
  then show False
    using aux [OF assms(3) assms(4) assms(5)] aux [OF assms(4) assms(3)] assms(5) by blast
qed

lemma desc_unfold:
  "desc h a b \<longleftrightarrow> b = a \<or> (a < length h \<and> (\<exists>(k, c) \<in> set (children (h ! a)). desc h c b))"
  by (auto elim: desc.cases intro: desc.intros)

lemma configured_none: "configured g config (\<lambda>b. False) h = h"
  by (simp add: configured_def map_nth)

lemma configured_single:
  "a < length h \<Longrightarrow> h[a := applyConfig g config (h ! a)] = configured g config (\<lambda>b. b = a) h"
  by (rule nth_equalityI) (simp_all add: configured_length configured_nth nth_list_update)

lemma configured_twice:
  assumes "\<And>b. b < length h \<Longrightarrow> \<not> (S1 b \<and> S2 b)"
  shows "configured g config S2 (configured g config S1 h) = configured g config (\<lambda>b. S1 b \<or> S2 b) h"
proof (rule nth_equalityI)
  show "length (configured g config S2 (configured g config S1 h)) =
        length (configured g config (\<lambda>b. S1 b \<or> S2 b) h)"
    by (simp add: configured_length)
next
  fix b assume "b < length (configured g config S2 (configured g config S1 h))"
  then have b: "b < length h" by (simp add: configured_length)
  with assms [OF b] show "configured g config S2 (configured g config S1 h) ! b =
      configured g config (\<lambda>b. S1 b \<or> S2 b) h ! b"
    by (auto simp: configured_length configured_nth)
qed

lemma configured_cong:
  "(\<And>b. b < length h \<Longrightarrow> S b = T b) \<Longrightarrow> configured g config S h = configured g config T h"
  by (rule nth_equalityI) (simp_all add: configured_length configured_nth)

lemma forEach_children:
  assumes ih: "\<And>c hh. shapeOk hh \<Longrightarrow> c < length hh \<Longrightarrow> length hh - c \<le> n \<Longrightarrow>
      Logger_setConfig n g config c hh = Some (configured g config (desc hh c) hh)"
    and ok: "shapeOk h" and a: "a < length h" and n: "length h - a \<le> Suc n"
  shows "set cs \<subseteq> snd ` set (children (h ! a)) \<Longrightarrow> distinct cs \<Longrightarrow> sameShape h hh \<Longrightarrow>
     forEach (\<lambda>child h'. Logger_setConfig n g config child h') cs hh =
       Some (configured g config (\<lambda>b. \<exists>c \<in> set cs. desc h c b) hh)"
proof (induction cs arbitrary: hh)
  case Nil
  show ?case by (simp add: configured_none)
next
  case (Cons c cs)
  from Cons.prems(1) obtain k where kc: "(k, c) \<in> set (children (h ! a))" by auto
  from shapeOk_child_bounds [OF ok a kc] have c: "a < c" "c < length h" by simp_all
  from Cons.prems(3) have len: "length hh = length h" by (simp add: sameShape_def)
  have okhh: "shapeOk hh" using Cons.prems(3) ok by (rule shapeOk_sameShape)
  have "length hh - c \<le> n" using c n len by simp
  with ih [OF okhh] c len
  have 1: "Logger_setConfig n g config c hh = Some (configured g config (desc hh c) hh)" by simp
  have d: "desc hh c = desc h c" using Cons.prems(3) by (rule desc_sameShape)
  let ?h2 = "configured g config (desc h c) hh"
  have s2: "sameShape h ?h2"
    using Cons.prems(3) sameShape_configured by (rule sameShape_trans)
  from Cons.prems have 2: "forEach (\<lambda>child h'. Logger_setConfig n g config child h') cs ?h2 =
       Some (configured g config (\<lambda>b. \<exists>c \<in> set cs. desc h c b) ?h2)"
    by (intro Cons.IH s2) auto
  have disj: "\<And>b. b < length hh \<Longrightarrow> \<not> (desc h c b \<and> (\<exists>c' \<in> set cs. desc h c' b))"
  proof
    fix b assume "desc h c b \<and> (\<exists>c' \<in> set cs. desc h c' b)"
    then obtain c' where c': "c' \<in> set cs" "desc h c' b" and cb: "desc h c b" by blast
    from c'(1) Cons.prems(1) obtain k' where kc': "(k', c') \<in> set (children (h ! a))" by auto
    from c'(1) Cons.prems(2) have "c \<noteq> c'" by auto
    from siblings_disjoint [OF ok a kc kc' this cb c'(2)] show False .
  qed
  have "configured g config (\<lambda>b. \<exists>c \<in> set cs. desc h c b) ?h2 =
        configured g config (\<lambda>b. desc h c b \<or> (\<exists>c \<in> set cs. desc h c b)) hh"
    using disj by (rule configured_twice)
  also have "\<dots> = configured g config (\<lambda>b. \<exists>c' \<in> set (c # cs). desc h c' b) hh"
    by (rule configured_cong) simp
  finally show ?case using 1 2 d by simp
qed

lemma setConfig_closed_form:
  "shapeOk h \<Longrightarrow> a < length h \<Longrightarrow> length h - a \<le> n \<Longrightarrow>
   Logger_setConfig n g config a h = Some (configured g config (desc h a) h)"
proof (induction n arbitrary: a h)
  case 0
  then show ?case by simp
next
  case (Suc n)
  let ?h1 = "h[a := applyConfig g config (h ! a)]"
  let ?cs = "map snd (children (h ! a))"
  have h1: "?h1 = configured g config (\<lambda>b. b = a) h" using Suc.prems(2) by (rule configured_single)
  have s1: "sameShape h ?h1" unfolding h1 by (rule sameShape_configured)
  have dist: "distinct ?cs" using Suc.prems(1,2) by (simp add: shapeOk_def)
  have "forEach (\<lambda>child h'. Logger_setConfig n g config child h') ?cs ?h1 =
       Some (configured g config (\<lambda>b. \<exists>c \<in> set ?cs. desc h c b) ?h1)"
    using Suc.IH Suc.prems
    by (intro forEach_children [where a = a] dist s1) auto
  also have "configured g config (\<lambda>b. \<exists>c \<in> set ?cs. desc h c b) ?h1 =
      configured g config (\<lambda>b. b = a \<or> (\<exists>c \<in> set ?cs. desc h c b)) h"
    unfolding h1
  proof (rule configured_twice)
    fix b assume "b < length h"
    show "\<not> (b = a \<and> (\<exists>c \<in> set ?cs. desc h c b))"
    proof
      assume "b = a \<and> (\<exists>c \<in> set ?cs. desc h c b)"
      then obtain k c where kc: "(k, c) \<in> set (children (h ! a))" and d: "desc h c a" by auto
      from desc_ge [OF d Suc.prems(1)] shapeOk_child_bounds [OF Suc.prems(1,2) kc]
      show False by simp
    qed
  qed
  also have "\<dots> = configured g config (desc h a) h"
  proof (rule configured_cong)
    fix b assume "b < length h"
    show "(b = a \<or> (\<exists>c \<in> set ?cs. desc h c b)) = desc h a b"
      using Suc.prems(2) by (subst (2) desc_unfold) force
  qed
  finally show ?case using Suc.prems(2) by simp
qed

lemma forEach_mono:
  assumes "\<And>c hh r. f c hh = Some r \<Longrightarrow> f' c hh = Some r"
  shows "forEach f cs h = Some r \<Longrightarrow> forEach f' cs h = Some r"
  by (induction cs arbitrary: h) (auto split: option.splits dest: assms)

lemma setConfig_fuel_Suc:
  "Logger_setConfig n g config a h = Some r \<Longrightarrow> Logger_setConfig (Suc n) g config a h = Some r"
proof (induction n arbitrary: a h r)
  case 0
  then show ?case by simp
next
  case (Suc n)
  from Suc.prems have a: "a < length h"
    and f: "forEach (\<lambda>child h'. Logger_setConfig n g config child h') (map snd (children (h ! a)))
             (h[a := applyConfig g config (h ! a)]) = Some r"
    by (simp_all split: if_splits)
  have "forEach (\<lambda>child h'. Logger_setConfig (Suc n) g config child h') (map snd (children (h ! a)))
             (h[a := applyConfig g config (h ! a)]) = Some r"
    using f by (rule forEach_mono [rotated]) (rule Suc.IH)
  with a show ?case by (simp del: Logger_setConfig.simps(2) add: Logger_setConfig.simps(2) [of "Suc n"])
qed

lemma setConfig_fuel_mono:
  "Logger_setConfig n g config a h = Some r \<Longrightarrow> n \<le> m \<Longrightarrow> Logger_setConfig m g config a h = Some r"
proof (induction m)
  case 0
  then show ?case by simp
next
  case (Suc m)
  show ?case
  proof (cases "n = Suc m")
    case True
    with Suc.prems(1) show ?thesis by blast
  next
    case False
    with Suc.prems(2) have "n \<le> m" by simp
    from Suc.IH [OF Suc.prems(1) this] show ?thesis by (rule setConfig_fuel_Suc)
  qed
qed

lemma setConfig_result:
  assumes "shapeOk h" and "a < length h" and "Logger_setConfig n g config a h = Some r"
  shows "r = configured g config (desc h a) h"
proof -
  from assms(3) have "Logger_setConfig (max n (length h)) g config a h = Some r"
    by (rule setConfig_fuel_mono) simp
  moreover have "Logger_setConfig (max n (length h)) g config a h = Some (configured g config (desc h a) h)"
    using assms(1,2) by (rule setConfig_closed_form) simp
  ultimately show ?thesis by simp
qed

lemma shapeOk_append:
  assumes "shapeOk h" and "children l = []"
  shows "shapeOk (h @ [l])"
  unfolding shapeOk_def
proof (intro allI impI conjI ballI)
  fix p assume "p < length (h @ [l])"
  then show "distinct (map snd (children ((h @ [l]) ! p)))"
    using assms by (auto simp: nth_append shapeOk_def)
next
  fix p x assume p: "p < length (h @ [l])" and x: "x \<in> set (children ((h @ [l]) ! p))"
  obtain k c where kc: "x = (k, c)" by (cases x)
  from p x assms(2) have pl: "p < length h" and old: "(k, c) \<in> set (children (h ! p))"
    by (auto simp: nth_append kc split: if_splits)
  have b: "p < c \<and> c < length h" using assms(1) pl old by (rule shapeOk_child_bounds)
  have "\<forall>p' < length (h @ [l]). \<forall>(k', c') \<in> set (children ((h @ [l]) ! p')). c' = c \<longrightarrow> p' = p"
  proof (intro allI impI ballI)
    fix p' y assume p': "p' < length (h @ [l])" and y: "y \<in> set (children ((h @ [l]) ! p'))"
    obtain k' c' where kc': "y = (k', c')" by (cases y)
    from p' y assms(2) have pl': "p' < length h" and old': "(k', c') \<in> set (children (h ! p'))"
      by (auto simp: nth_append kc' split: if_splits)
    show "case y of (k', c') \<Rightarrow> c' = c \<longrightarrow> p' = p"
      using shapeOk_unique_parent [OF assms(1) pl old pl'] old' by (auto simp: kc')
  qed
  with b show "case x of (k, c) \<Rightarrow> p < c \<and> c < length (h @ [l])
      \<and> (\<forall>p' < length (h @ [l]). \<forall>(k', c') \<in> set (children ((h @ [l]) ! p')). c' = c \<longrightarrow> p' = p)"
    by (simp add: kc)
qed

lemma namesOk_append:
  assumes "namesOk h" and "children l = []" and "namespace l \<noteq> []"
  shows "namesOk (h @ [l])"
  unfolding namesOk_def
proof (intro allI impI conjI ballI)
  fix p assume "p < length (h @ [l])"
  then show "namespace ((h @ [l]) ! p) \<noteq> []"
    using assms by (auto simp: nth_append namesOk_def)
next
  fix p x assume p: "p < length (h @ [l])" and x: "x \<in> set (children ((h @ [l]) ! p))"
  obtain k c where kc: "x = (k, c)" by (cases x)
  from p x assms(2) have pl: "p < length h" and old: "(k, c) \<in> set (children (h ! p))"
    by (auto simp: nth_append kc split: if_splits)
  with assms(1) have "c < length h" "namespace (h ! c) = namespace (h ! p) @ ''.'' @ k"
    by (auto simp: namesOk_def)
  with pl show "case x of (k, c) \<Rightarrow> c < length (h @ [l])
      \<and> namespace ((h @ [l]) ! c) = namespace ((h @ [l]) ! p) @ ''.'' @ k"
    by (simp add: kc nth_append)
qed

lemma shapeOk_add_child:
  assumes "shapeOk h" and "this < length h" and "children l = []"
  shows "shapeOk ((h @ [l])[this := (h ! this) \<lparr> children := children (h ! this) @ [(s, length h)] \<rparr>])"
proof -
  define h1 where "h1 = (h @ [l])[this := (h ! this) \<lparr> children := children (h ! this) @ [(s, length h)] \<rparr>]"
  have len: "length h1 = Suc (length h)" by (simp add: h1_def)
  have ch_this: "children (h1 ! this) = children (h ! this) @ [(s, length h)]"
    using assms(2) by (simp add: h1_def)
  have ch_new: "children (h1 ! length h) = []"
    using assms(2,3) by (simp add: h1_def)
  have ch_old: "\<And>p. p < length h \<Longrightarrow> p \<noteq> this \<Longrightarrow> children (h1 ! p) = children (h ! p)"
    by (simp add: h1_def nth_append)
  have old_lt: "\<And>p k c. p < length h \<Longrightarrow> (k, c) \<in> set (children (h ! p)) \<Longrightarrow> p < c \<and> c < length h"
    using assms(1) by (rule shapeOk_child_bounds)
  have mem: "(p < length h \<and> (k, c) \<in> set (children (h ! p))) \<or> (p = this \<and> k = s \<and> c = length h)"
    if "p < length h1" and "(k, c) \<in> set (children (h1 ! p))" for p k c
  proof (cases "p = this")
    case True
    with that show ?thesis using assms(2) by (auto simp: ch_this)
  next
    case False
    show ?thesis
    proof (cases "p = length h")
      case True
      with that show ?thesis by (simp add: ch_new)
    next
      case False
      with that len have "p < length h" by simp
      with that \<open>p \<noteq> this\<close> show ?thesis by (simp add: ch_old)
    qed
  qed
  have dist: "distinct (map snd (children (h1 ! p)))" if "p < length h1" for p
  proof (cases "p = this")
    case True
    have "length h \<notin> snd ` set (children (h ! this))"
      using old_lt [OF assms(2)] by fastforce
    moreover have "distinct (map snd (children (h ! this)))"
      using assms(1,2) by (simp add: shapeOk_def)
    ultimately show ?thesis by (simp add: True ch_this)
  next
    case False
    show ?thesis
    proof (cases "p = length h")
      case True
      then show ?thesis by (simp add: ch_new)
    next
      case False
      with that len have pl: "p < length h" by simp
      with assms(1) have "distinct (map snd (children (h ! p)))" by (simp add: shapeOk_def)
      with pl \<open>p \<noteq> this\<close> show ?thesis by (simp add: ch_old)
    qed
  qed
  have uniq: "p' = p"
    if "p < length h1" and "(k, c) \<in> set (children (h1 ! p))"
      and "p' < length h1" and "(k', c) \<in> set (children (h1 ! p'))" for p k c p' k'
  proof -
    from mem [OF that(1,2)] mem [OF that(3,4)]
    consider (old) "p < length h" "(k, c) \<in> set (children (h ! p))" "p' < length h" "(k', c) \<in> set (children (h ! p'))"
      | (new) "p = this" "p' = this"
      | (mix1) "p < length h" "(k, c) \<in> set (children (h ! p))" "c = length h"
      | (mix2) "p' < length h" "(k', c) \<in> set (children (h ! p'))" "c = length h"
      by blast
    then show ?thesis
    proof cases
      case old
      from shapeOk_unique_parent [OF assms(1) old] show ?thesis .
    next
      case new
      then show ?thesis by simp
    next
      case mix1
      with old_lt [OF mix1(1,2)] show ?thesis by simp
    next
      case mix2
      with old_lt [OF mix2(1,2)] show ?thesis by simp
    qed
  qed
  have bounds: "p < c \<and> c < length h1"
    if "p < length h1" and "(k, c) \<in> set (children (h1 ! p))" for p k c
    using mem [OF that] old_lt [of p k c] assms(2) len by auto
  have "shapeOk h1"
    unfolding shapeOk_def
  proof (intro allI impI conjI ballI)
    fix p assume "p < length h1"
    then show "distinct (map snd (children (h1 ! p)))" by (rule dist)
  next
    fix p x assume p: "p < length h1" and x: "x \<in> set (children (h1 ! p))"
    obtain k c where kc: "x = (k, c)" by (cases x)
    have u: "\<forall>p' < length h1. \<forall>(k', c') \<in> set (children (h1 ! p')). c' = c \<longrightarrow> p' = p"
    proof (intro allI impI ballI)
      fix p' y assume p': "p' < length h1" and y: "y \<in> set (children (h1 ! p'))"
      obtain k' c' where kc': "y = (k', c')" by (cases y)
      have "c' = c \<longrightarrow> p' = p"
        using uniq [OF p _ p', of k c k'] x y kc kc' by blast
      then show "case y of (k', c') \<Rightarrow> c' = c \<longrightarrow> p' = p" by (simp add: kc')
    qed
    from bounds [OF p, of k c] x kc have "p < c \<and> c < length h1" by simp
    with u show "case x of (k, c) \<Rightarrow> p < c \<and> c < length h1
      \<and> (\<forall>p' < length h1. \<forall>(k', c') \<in> set (children (h1 ! p')). c' = c \<longrightarrow> p' = p)"
      by (simp only: kc prod.case simp_thms)
  qed
  then show ?thesis by (simp only: h1_def)
qed

lemma shapeOk_child:
  assumes "shapeOk h" and "this < length h" and "Logger_child g this s b h = (c, h1)"
  shows "shapeOk h1"
proof (cases "map_of (children (h ! this)) s")
  case (Some c')
  with assms show ?thesis by (simp add: Logger_child_def)
next
  case None
  from child_fresh [OF None assms(2), of g b] assms(3)
  show ?thesis
    using shapeOk_add_child [OF assms(1,2) constructor_children] by auto
qed

lemma shapeOk_newLogger: "shapeOk h \<Longrightarrow> shapeOk (snd (newLogger g options h))"
  by (simp add: newLogger_def shapeOk_append constructor_children)

lemma namesOk_newLogger: "namesOk h \<Longrightarrow> namesOk (snd (newLogger g options h))"
  by (simp add: newLogger_def namesOk_append constructor_children constructor_namespace
      orString_nonempty)

lemma namesOk_configured: "namesOk h \<Longrightarrow> namesOk (configured g config S h)"
  by (simp add: namesOk_def configured_length configured_nth applyConfig_namespace
      applyConfig_children case_prod_unfold)

lemma shapeOk_setConfig:
  "shapeOk h \<Longrightarrow> this < length h \<Longrightarrow> Logger_setConfig n g config this h = Some h' \<Longrightarrow> shapeOk h'"
  using setConfig_result [of h this n g config h'] sameShape_configured shapeOk_sameShape
  by blast

lemma namesOk_setConfig:
  "shapeOk h \<Longrightarrow> namesOk h \<Longrightarrow> this < length h \<Longrightarrow>
   Logger_setConfig n g config this h = Some h' \<Longrightarrow> namesOk h'"
  using setConfig_result [of h this n g config h'] namesOk_configured by blast

lemma shapeOk_empty: "shapeOk []"
  by (simp add: shapeOk_def)

lemma namesOk_empty: "namesOk []"
  by (simp add: namesOk_def)

lemma rootHeap_ok: "shapeOk (rootHeap g) \<and> namesOk (rootHeap g) \<and> length (rootHeap g) = 1"
  unfolding rootHeap_def
  using shapeOk_newLogger [OF shapeOk_empty] namesOk_newLogger [OF namesOk_empty]
  by (simp add: newLogger_def)

subsection \<open>Child loggers\<close>

text \<open>
  Claim C9.  In a well-formed heap, \<open>child(s)\<close> called twice on the same parent returns the
  identical child, whatever the bindings of the second call, and the second call changes
  nothing; the child's namespace is the parent's namespace, a dot, and \<open>s\<close>; and the heap
  stays well-formed, so that every logger held in a \<open>children\<close> map has its parent's
  namespace, a dot, and its key as namespace.
\<close>

theorem child_memoized_and_named:
  assumes "namesOk h" and "this < length h" and "Logger_child g this s b1 h = (c, h1)"
  shows "Logger_child g this s b2 h1 = (c, h1)
    \<and> namespace (h1 ! c) = namespace (h1 ! this) @ ''.'' @ s
    \<and> namesOk h1"
proof -
  from namesOk_child [OF assms]
  have ok: "namesOk h1" and m: "map_of (children (h1 ! this)) s = Some c" and len: "length h \<le> length h1"
    by simp_all
  from m have "(s, c) \<in> set (children (h1 ! this))" by (rule map_of_SomeD)
  moreover from assms(2) len have "this < length h1" by simp
  ultimately have "namespace (h1 ! c) = namespace (h1 ! this) @ ''.'' @ s"
    using ok unfolding namesOk_def by fastforce
  with ok child_twice [OF assms(2,3)] show ?thesis by simp
qed

text \<open>\<open>child("B")\<close> twice on the root \<open>A\<close>: the same object, named \<open>A.B\<close>.\<close>

theorem child_memoized_and_named_witness:
  "Logger_child devNoPino 0 ''B'' None (snd (Logger_child devNoPino 0 ''B'' None (rootHeap devNoPino)))
     = (1, snd (Logger_child devNoPino 0 ''B'' None (rootHeap devNoPino)))
   \<and> namespace (snd (Logger_child devNoPino 0 ''B'' None (rootHeap devNoPino)) ! 1) = ''A.B''
   \<and> namesOk (snd (Logger_child devNoPino 0 ''B'' None (rootHeap devNoPino)))"
proof -
  have c: "Logger_child devNoPino 0 ''B'' None (rootHeap devNoPino)
      = (1, snd (Logger_child devNoPino 0 ''B'' None (rootHeap devNoPino)))"
    by (simp add: rootHeap_def newLogger_def Logger_child_def Logger_constructor_def Let_def)
  have n: "namespace (snd (Logger_child devNoPino 0 ''B'' None (rootHeap devNoPino)) ! 0) = ''A''"
    by (simp add: rootHeap_def newLogger_def Logger_child_def Logger_constructor_def Let_def
        orString_def noOptions_def)
  from rootHeap_ok [of devNoPino] have "namesOk (rootHeap devNoPino)" "0 < length (rootHeap devNoPino)"
    by simp_all
  from child_memoized_and_named [OF this c, of None] n show ?thesis by simp
qed

lemma applyConfig_plain_fields:
  "logDir (applyConfig g config l) = (case opt_logDir config of None \<Rightarrow> logDir l | Some v \<Rightarrow> v)"
  "logFileName (applyConfig g config l) = (case opt_logFileName config of None \<Rightarrow> logFileName l | Some v \<Rightarrow> v)"
  "disableConsole (applyConfig g config l) = (case opt_disableConsole config of None \<Rightarrow> disableConsole l | Some v \<Rightarrow> v)"
  "maxSize (applyConfig g config l) = (case opt_maxSize config of None \<Rightarrow> maxSize l | Some v \<Rightarrow> Some v)"
  "maxFiles (applyConfig g config l) = (case opt_maxFiles config of None \<Rightarrow> maxFiles l | Some v \<Rightarrow> Some v)"
  "frequency (applyConfig g config l) = (case opt_frequency config of None \<Rightarrow> frequency l | Some v \<Rightarrow> Some v)"
  "minLevel (applyConfig g config l) = (case opt_level config of None \<Rightarrow> minLevel l | Some v \<Rightarrow> v)"
  "transports (applyConfig g config l) = (case opt_transports config of None \<Rightarrow> transports l | Some ts \<Rightarrow> ts)"
  "backend (applyConfig g config l) = backend l"
  by (simp_all add: applyConfig_def Let_def split: option.splits)

text \<open>
  The value \<open>setConfig\<close> leaves in \<open>enabled\<close>, case by case.  Two of the cases go against what
  the code says of itself.  With \<open>enabled: false\<close> and a non-empty \<open>transports\<close>, the block
  that follows, commented \<open>Auto-enable in production when transports are provided\<close>,
  enables the logger again, in every mode, although \<open>enabled\<close> is documented to force the
  logger on or off.  With \<open>enabled: true\<close> and an empty \<open>transports\<close>, in production without
  pino, \<open>hasTransports\<close> still counts the list that is about to be replaced, and the logger
  ends up enabled with no transports.
\<close>

lemma applyConfig_enabled:
  "enabled (applyConfig g config l) =
     (case opt_transports config of
        None \<Rightarrow>
          (case opt_enabled config of
             None \<Rightarrow> enabled l
           | Some en \<Rightarrow> \<not> stripLogs g \<and> en \<and> (\<not> isProd g \<or> pinoAvailable g \<or> transports l \<noteq> []))
      | Some ts \<Rightarrow>
          (case opt_enabled config of
             None \<Rightarrow> enabled l \<or> (ts \<noteq> [] \<and> \<not> stripLogs g)
           | Some en \<Rightarrow>
               \<not> stripLogs g
               \<and> (ts \<noteq> [] \<or> (en \<and> (\<not> isProd g \<or> pinoAvailable g \<or> transports l \<noteq> [])))))"
  by (auto simp add: applyConfig_def Let_def split: option.splits)


lemma desc_fresh:
  assumes "shapeOk h" and "children l = []" and "a < length h"
  shows "\<not> desc (h @ [l]) a (length h)"
proof
  assume d: "desc (h @ [l]) a (length h)"
  from assms(3) have "a \<noteq> length h" by simp
  from desc_tail [OF d this] obtain p k
    where p: "p < length (h @ [l])" "(k, length h) \<in> set (children ((h @ [l]) ! p))" by blast
  with assms(2) have pl: "p < length h" and "(k, length h) \<in> set (children (h ! p))"
    by (auto simp: nth_append split: if_splits)
  with shapeOk_child_bounds [OF assms(1)] show False by blast
qed

subsection \<open>setConfig\<close>

text \<open>
  Claim C4, as the code has it.  With enough fuel for the depth of the tree,
  \<open>setConfig(config)\<close> returns, and exactly the receiver and the loggers reached from it
  through \<open>children\<close> maps receive the configuration, each once.  On each of them it
  leaves namespace, backend and children alone, and assigns \<open>logDir\<close>, \<open>logFileName\<close>,
  \<open>disableConsole\<close>, \<open>maxSize\<close>, \<open>maxFiles\<close>, \<open>frequency\<close>, \<open>level\<close> and \<open>transports\<close> when the
  configuration has them and leaves them otherwise.  For \<open>enabled\<close>:
  \<^item> a configuration without \<open>enabled\<close> leaves it, except that a non-empty \<open>transports\<close>
    enables a disabled logger unless \<open>stripLogs\<close> is set (an empty \<open>transports\<close> leaves it);
  \<^item> a configuration with \<open>enabled\<close> and without \<open>transports\<close> sets it to \<open>!stripLogs &&
    config.enabled && (!isProd || pinoAvailable ||\<close> the logger has transports\<open>)\<close>;
  \<^item> \<open>enabled: true\<close> with a \<open>transports\<close> list sets it to \<open>!stripLogs && (!isProd ||
    pinoAvailable ||\<close> the list is non-empty\<open>)\<close>, provided that the list is non-empty, or the
    logger had no transports, or a backend is there or the mode is not production;
  \<^item> \<open>enabled: false\<close> with a \<open>transports\<close> list disables the logger when the list is empty
    or \<open>stripLogs\<close> is set.
\<close>

theorem setConfig_fields_and_propagation:
  assumes "shapeOk h" and "this < length h" and "length h - this \<le> n"
  shows "Logger_setConfig n g config this h =
           Some (map (\<lambda>b. if desc h this b then applyConfig g config (h ! b) else h ! b) [0..<length h])
    \<and> namespace (applyConfig g config l) = namespace l
    \<and> backend (applyConfig g config l) = backend l
    \<and> children (applyConfig g config l) = children l
    \<and> logDir (applyConfig g config l) = (case opt_logDir config of None \<Rightarrow> logDir l | Some v \<Rightarrow> v)
    \<and> logFileName (applyConfig g config l) = (case opt_logFileName config of None \<Rightarrow> logFileName l | Some v \<Rightarrow> v)
    \<and> disableConsole (applyConfig g config l) = (case opt_disableConsole config of None \<Rightarrow> disableConsole l | Some v \<Rightarrow> v)
    \<and> maxSize (applyConfig g config l) = (case opt_maxSize config of None \<Rightarrow> maxSize l | Some v \<Rightarrow> Some v)
    \<and> maxFiles (applyConfig g config l) = (case opt_maxFiles config of None \<Rightarrow> maxFiles l | Some v \<Rightarrow> Some v)
    \<and> frequency (applyConfig g config l) = (case opt_frequency config of None \<Rightarrow> frequency l | Some v \<Rightarrow> Some v)
    \<and> minLevel (applyConfig g config l) = (case opt_level config of None \<Rightarrow> minLevel l | Some v \<Rightarrow> v)
    \<and> transports (applyConfig g config l) = (case opt_transports config of None \<Rightarrow> transports l | Some ts \<Rightarrow> ts)
    \<and> (opt_enabled config = None \<longrightarrow>
          enabled (applyConfig g config l) =
            (case opt_transports config of
               None \<Rightarrow> enabled l
             | Some ts \<Rightarrow> enabled l \<or> (ts \<noteq> [] \<and> \<not> stripLogs g)))
    \<and> (opt_transports config = None \<longrightarrow>
          enabled (applyConfig g config l) =
            (case opt_enabled config of
               None \<Rightarrow> enabled l
             | Some en \<Rightarrow> \<not> stripLogs g \<and> en \<and> (\<not> isProd g \<or> pinoAvailable g \<or> transports l \<noteq> [])))
    \<and> (opt_enabled config = Some True \<and> opt_transports config = Some ts
        \<and> (ts \<noteq> [] \<or> transports l = [] \<or> \<not> isProd g \<or> pinoAvailable g) \<longrightarrow>
          enabled (applyConfig g config l) =
            (\<not> stripLogs g \<and> (\<not> isProd g \<or> pinoAvailable g \<or> ts \<noteq> [])))
    \<and> (opt_enabled config = Some False \<and> opt_transports config = Some ts
        \<and> (ts = [] \<or> stripLogs g) \<longrightarrow>
          enabled (applyConfig g config l) = False)"
proof -
  have e1: "opt_enabled config = None \<longrightarrow>
          enabled (applyConfig g config l) =
            (case opt_transports config of
               None \<Rightarrow> enabled l
             | Some ts \<Rightarrow> enabled l \<or> (ts \<noteq> [] \<and> \<not> stripLogs g))"
    by (simp add: applyConfig_enabled split: option.splits)
  have e2: "opt_transports config = None \<longrightarrow>
          enabled (applyConfig g config l) =
            (case opt_enabled config of
               None \<Rightarrow> enabled l
             | Some en \<Rightarrow> \<not> stripLogs g \<and> en \<and> (\<not> isProd g \<or> pinoAvailable g \<or> transports l \<noteq> []))"
    by (simp add: applyConfig_enabled split: option.splits)
  have e3: "opt_enabled config = Some True \<and> opt_transports config = Some ts
        \<and> (ts \<noteq> [] \<or> transports l = [] \<or> \<not> isProd g \<or> pinoAvailable g) \<longrightarrow>
          enabled (applyConfig g config l) =
            (\<not> stripLogs g \<and> (\<not> isProd g \<or> pinoAvailable g \<or> ts \<noteq> []))"
    by (auto simp: applyConfig_enabled)
  have e4: "opt_enabled config = Some False \<and> opt_transports config = Some ts
        \<and> (ts = [] \<or> stripLogs g) \<longrightarrow>
          enabled (applyConfig g config l) = False"
    by (auto simp: applyConfig_enabled)
  have f: "Logger_setConfig n g config this h =
           Some (map (\<lambda>b. if desc h this b then applyConfig g config (h ! b) else h ! b) [0..<length h])"
    using setConfig_closed_form [OF assms, of g config] by (simp only: configured_def)
  show ?thesis
    using f e1 e2 e3 e4
    by (simp only: applyConfig_plain_fields applyConfig_namespace applyConfig_children simp_thms)
qed

lemma familyHeap_ok: "shapeOk (familyHeap g) \<and> namesOk (familyHeap g) \<and> length (familyHeap g) = 3"
proof -
  obtain c1 h1 where 1: "Logger_child g 0 ''B'' None (rootHeap g) = (c1, h1)" by fastforce
  obtain c2 h2 where 2: "Logger_child g 0 ''C'' None h1 = (c2, h2)" by fastforce
  from rootHeap_ok [of g] have r: "shapeOk (rootHeap g)" "namesOk (rootHeap g)" "0 < length (rootHeap g)"
    by simp_all
  have s1: "shapeOk h1" using r(1) r(3) 1 by (rule shapeOk_child)
  have n1: "namesOk h1" using namesOk_child [OF r(2) r(3) 1] by simp
  have l1: "length h1 = 2"
    using 1 rootHeap_ok [of g]
    by (auto simp: rootHeap_def newLogger_def Logger_child_def Logger_constructor_def Let_def)
  then have z: "0 < length h1" by simp
  have s2: "shapeOk h2" using s1 z 2 by (rule shapeOk_child)
  have n2: "namesOk h2" using namesOk_child [OF n1 z 2] by simp
  have l2: "length h2 = 3"
    using 1 2
    by (auto simp: rootHeap_def newLogger_def Logger_child_def Logger_constructor_def Let_def)
  from s2 n2 l2 1 2 show ?thesis by (simp add: familyHeap_def)
qed

lemma familyHeap_desc:
  "desc (familyHeap g) 0 0" "desc (familyHeap g) 0 (Suc 0)" "desc (familyHeap g) 0 2"
proof -
  show "desc (familyHeap g) 0 0" by (rule desc.self)
  have c: "children (familyHeap g ! 0) = [(''B'', 1), (''C'', 2)]"
    by (simp add: familyHeap_def rootHeap_def newLogger_def Logger_child_def
        Logger_constructor_def Let_def)
  have l: "0 < length (familyHeap g)" using familyHeap_ok [of g] by simp
  show "desc (familyHeap g) 0 (Suc 0)"
    by (rule desc.step [OF l, where k = "''B''" and c = "Suc 0"]) (simp_all add: c desc.self)
  show "desc (familyHeap g) 0 2"
    by (rule desc.step [OF l, where k = "''C''" and c = 2]) (simp_all add: c desc.self)
qed

lemma familyHeap_enabled: "map enabled (familyHeap prodNoPino) = [False, False, False]"
  by (simp add: familyHeap_def rootHeap_def newLogger_def Logger_child_def
      Logger_constructor_def Let_def prodNoPino_def devNoPino_def noOptions_def)

text \<open>
  In production without pino, \<open>setConfig({transports: [t]})\<close> on a parent with two
  already-created children, all three disabled: all three end up enabled with the
  transport list \<open>[t]\<close>.
\<close>

theorem setConfig_fields_and_propagation_witness:
  "map enabled (familyHeap prodNoPino) = [False, False, False]
   \<and> (\<exists>h'. Logger_setConfig 3 prodNoPino lateTransport 0 (familyHeap prodNoPino) = Some h'
          \<and> map enabled h' = [True, True, True]
          \<and> map (\<lambda>l. map tid (transports l)) h' = [[7], [7], [7]])"
proof -
  from familyHeap_ok [of prodNoPino]
  have ok: "shapeOk (familyHeap prodNoPino)" "0 < length (familyHeap prodNoPino)"
    "length (familyHeap prodNoPino) - 0 \<le> 3" and len: "length (familyHeap prodNoPino) = 3"
    by simp_all
  have upt: "[0..<3] = [0, 1, 2]" by (simp add: upt_rec)
  have t: "opt_transports lateTransport = Some [quietTransport 7]" "opt_enabled lateTransport = None"
    by (simp_all add: lateTransport_def noOptions_def)
  have s: "\<not> stripLogs prodNoPino" by (simp add: prodNoPino_def devNoPino_def)
  from setConfig_fields_and_propagation [OF ok, of prodNoPino lateTransport]
  have r: "Logger_setConfig 3 prodNoPino lateTransport 0 (familyHeap prodNoPino) =
      Some [applyConfig prodNoPino lateTransport (familyHeap prodNoPino ! 0),
            applyConfig prodNoPino lateTransport (familyHeap prodNoPino ! 1),
            applyConfig prodNoPino lateTransport (familyHeap prodNoPino ! 2)]"
    and e: "\<And>l. enabled (applyConfig prodNoPino lateTransport l) = (enabled l \<or> True)"
    and tr: "\<And>l. transports (applyConfig prodNoPino lateTransport l) = [quietTransport 7]"
    by (simp_all add: len upt familyHeap_desc t s)
  show ?thesis
    using familyHeap_enabled by (simp add: r e tr quietTransport_def)
qed

text \<open>
  Claim C4 as stated fails.  In production without pino, a logger enabled by its
  transport stays enabled after \<open>setConfig({transports: []})\<close>, where the constructor's
  rule gives \<open>false\<close> for an empty transport list (whether it is given no \<open>enabled\<close> option
  or the logger's current value); and \<open>setConfig({namespace: "X"})\<close> leaves the namespace
  as it is.
\<close>

theorem setConfig_not_construction_rule_counterexample:
  "Logger_setConfig 1 prodNoPino (noOptions \<lparr> opt_transports := Some [] \<rparr>) 0 transportHeap
     = Some [applyConfig prodNoPino (noOptions \<lparr> opt_transports := Some [] \<rparr>) (transportHeap ! 0)]
   \<and> enabled (transportHeap ! 0) = True
   \<and> transports (applyConfig prodNoPino (noOptions \<lparr> opt_transports := Some [] \<rparr>) (transportHeap ! 0)) = []
   \<and> enabled (applyConfig prodNoPino (noOptions \<lparr> opt_transports := Some [] \<rparr>) (transportHeap ! 0)) = True
   \<and> enabled (Logger_constructor prodNoPino (noOptions \<lparr> opt_transports := Some [] \<rparr>)) = False
   \<and> enabled (Logger_constructor prodNoPino
        (noOptions \<lparr> opt_enabled := Some (enabled (transportHeap ! 0)), opt_transports := Some [] \<rparr>)) = False
   \<and> namespace (applyConfig prodNoPino (noOptions \<lparr> opt_namespace := Some ''X'' \<rparr>) (transportHeap ! 0))
        = ''Anonymous''"
  by (simp add: transportHeap_def newLogger_def Logger_constructor_def Let_def prodNoPino_def
      devNoPino_def noOptions_def applyConfig_def orString_def)

subsection \<open>with\<close>

text \<open>
  Claim C10, as the code has it.  In a well-formed heap, \<open>with(bindings)\<close> allocates a fresh
  logger and changes no other object.  The new logger has the receiver's namespace,
  minimum level, \<open>disableConsole\<close>, \<open>maxSize\<close>, \<open>maxFiles\<close> and \<open>frequency\<close>, an empty
  transport list and no children; it is enabled exactly when the receiver is enabled,
  \<open>stripLogs\<close> is off, and the process is not in production or pino is available (the
  constructor's rule with no transports).  It is in no logger's \<open>children\<close> map, and no
  \<open>setConfig\<close> call on the receiver changes it.
\<close>

theorem with_returns_detached_logger:
  assumes "shapeOk h" and "namesOk h" and "this < length h"
    and "Logger_with g this bindings h = (w, h1)"
  shows "w = length h \<and> h1 = h @ [h1 ! w]
    \<and> namespace (h1 ! w) = namespace (h ! this)
    \<and> enabled (h1 ! w) = (\<not> stripLogs g \<and> enabled (h ! this) \<and> (\<not> isProd g \<or> pinoAvailable g))
    \<and> minLevel (h1 ! w) = minLevel (h ! this)
    \<and> disableConsole (h1 ! w) = disableConsole (h ! this)
    \<and> maxSize (h1 ! w) = maxSize (h ! this)
    \<and> maxFiles (h1 ! w) = maxFiles (h ! this)
    \<and> frequency (h1 ! w) = frequency (h ! this)
    \<and> transports (h1 ! w) = []
    \<and> children (h1 ! w) = []
    \<and> (\<forall>p < length h1. w \<notin> snd ` set (children (h1 ! p)))
    \<and> (\<forall>n config h2. Logger_setConfig n g config this h1 = Some h2 \<longrightarrow> h2 ! w = h1 ! w)"
proof -
  let ?opts = "\<lparr> opt_namespace = Some (namespace (h ! this)),
         opt_enabled = Some (enabled (h ! this)),
         opt_level = Some (minLevel (h ! this)),
         opt_bindings = Some bindings,
         opt_logDir = Some (logDir (h ! this)),
         opt_logFileName = Some (logFileName (h ! this)),
         opt_disableConsole = Some (disableConsole (h ! this)),
         opt_maxSize = maxSize (h ! this),
         opt_maxFiles = maxFiles (h ! this),
         opt_frequency = frequency (h ! this),
         opt_transports = None \<rparr>"
  define l where "l = Logger_constructor g ?opts"
  from assms(4) have w: "w = length h" and h1: "h1 = h @ [l]"
    by (simp_all add: Logger_with_def newLogger_def l_def)
  have lw: "h1 ! w = l" by (simp add: w h1)
  from assms(2,3) have ns: "namespace (h ! this) \<noteq> []" by (simp add: namesOk_def)
  have fields: "namespace l = namespace (h ! this)"
    "enabled l = (\<not> stripLogs g \<and> enabled (h ! this) \<and> (\<not> isProd g \<or> pinoAvailable g))"
    "minLevel l = minLevel (h ! this)" "disableConsole l = disableConsole (h ! this)"
    "maxSize l = maxSize (h ! this)" "maxFiles l = maxFiles (h ! this)"
    "frequency l = frequency (h ! this)" "transports l = []" "children l = []"
    using ns by (simp_all add: l_def Logger_constructor_def Let_def orString_def)
  have ok1: "shapeOk h1" unfolding h1 using assms(1) fields(9) by (rule shapeOk_append)
  have t1: "this < length h1" using assms(3) by (simp add: h1)
  have nochild: "\<forall>p < length h1. w \<notin> snd ` set (children (h1 ! p))"
  proof (intro allI impI notI)
    fix p assume p: "p < length h1" and m: "w \<in> snd ` set (children (h1 ! p))"
    then obtain k where k: "(k, w) \<in> set (children (h1 ! p))" by auto
    from shapeOk_child_bounds [OF ok1 p k] have "p < w" by simp
    with k w have "(k, length h) \<in> set (children (h ! p))" "p < length h"
      by (simp_all add: h1 nth_append)
    with shapeOk_child_bounds [OF assms(1)] show False by blast
  qed
  have frame: "\<forall>n config h2. Logger_setConfig n g config this h1 = Some h2 \<longrightarrow> h2 ! w = h1 ! w"
  proof (intro allI impI)
    fix n config h2 assume "Logger_setConfig n g config this h1 = Some h2"
    from setConfig_result [OF ok1 t1 this] have "h2 = configured g config (desc h1 this) h1" .
    moreover have "\<not> desc h1 this w"
      unfolding h1 w using assms(1) fields(9) assms(3) by (rule desc_fresh)
    ultimately show "h2 ! w = h1 ! w" by (simp add: configured_nth w h1)
  qed
  show ?thesis
    using w lw fields nochild frame by (simp add: h1)
qed

text \<open>\<open>with({})\<close> on a production logger that is enabled by its transport.\<close>

theorem with_returns_detached_logger_witness:
  "fst (Logger_with prodNoPino 0 Map.empty transportHeap) = 1
   \<and> namespace (snd (Logger_with prodNoPino 0 Map.empty transportHeap) ! 1) = ''Anonymous''
   \<and> enabled (snd (Logger_with prodNoPino 0 Map.empty transportHeap) ! 1) = False
   \<and> transports (snd (Logger_with prodNoPino 0 Map.empty transportHeap) ! 1) = []
   \<and> children (snd (Logger_with prodNoPino 0 Map.empty transportHeap) ! 0) = []"
proof -
  have ok: "shapeOk transportHeap" "namesOk transportHeap" "0 < length transportHeap"
    unfolding transportHeap_def
    using shapeOk_newLogger [OF shapeOk_empty] namesOk_newLogger [OF namesOk_empty]
    by (simp_all add: newLogger_def)
  have e: "Logger_with prodNoPino 0 Map.empty transportHeap =
      (fst (Logger_with prodNoPino 0 Map.empty transportHeap),
       snd (Logger_with prodNoPino 0 Map.empty transportHeap))" by simp
  have f: "fst (Logger_with prodNoPino 0 Map.empty transportHeap) = 1"
    by (simp add: Logger_with_def newLogger_def transportHeap_def)
  have p: "namespace (transportHeap ! 0) = ''Anonymous''" "isProd prodNoPino" "\<not> pinoAvailable prodNoPino"
    "children (snd (Logger_with prodNoPino 0 Map.empty transportHeap) ! 0) = []"
    by (simp_all add: transportHeap_def newLogger_def Logger_constructor_def Let_def orString_def
        noOptions_def prodNoPino_def devNoPino_def Logger_with_def)
  note wr = with_returns_detached_logger [OF ok e]
  from wr have "namespace (snd (Logger_with prodNoPino 0 Map.empty transportHeap)
      ! fst (Logger_with prodNoPino 0 Map.empty transportHeap)) = namespace (transportHeap ! 0)"
    by blast
  moreover from wr have "enabled (snd (Logger_with prodNoPino 0 Map.empty transportHeap)
      ! fst (Logger_with prodNoPino 0 Map.empty transportHeap))
      = (\<not> stripLogs prodNoPino \<and> enabled (transportHeap ! 0) \<and> (\<not> isProd prodNoPino \<or> pinoAvailable prodNoPino))"
    by blast
  moreover from wr have "transports (snd (Logger_with prodNoPino 0 Map.empty transportHeap)
      ! fst (Logger_with prodNoPino 0 Map.empty transportHeap)) = []"
    by blast
  ultimately show ?thesis
    by (simp add: f p)
qed

text \<open>
  Claim C10 as stated fails: in production without pino, a logger enabled by its
  transport is enabled, and the logger \<open>with({})\<close> returns is not.
\<close>

theorem with_enabled_not_shared_counterexample:
  "enabled (transportHeap ! 0) = True
   \<and> enabled (snd (Logger_with prodNoPino 0 Map.empty transportHeap)
                ! fst (Logger_with prodNoPino 0 Map.empty transportHeap)) = False"
  by (simp add: transportHeap_def newLogger_def Logger_with_def Logger_constructor_def Let_def
      prodNoPino_def devNoPino_def noOptions_def)

section \<open>Properties of the registry\<close>

lemma split_nonempty: "split sep s \<noteq> []"
  by (induction s) (auto split: list.splits)

lemma split_join: "split sep s = w # ws \<Longrightarrow> w @ concat (map ((#) sep) ws) = s"
proof (induction s arbitrary: w ws)
  case Nil
  then show ?case by simp
next
  case (Cons c cs)
  obtain v vs where v: "split sep cs = v # vs"
    using split_nonempty [of sep cs] by (cases "split sep cs") auto
  from Cons.IH [OF v] have cs: "v @ concat (map ((#) sep) vs) = cs" .
  show ?case
  proof (cases "c = sep")
    case True
    with Cons.prems v have "w = []" "ws = v # vs" by simp_all
    with cs True show ?thesis by simp
  next
    case False
    with Cons.prems v have "w = c # v" "ws = vs" by simp_all
    with cs show ?thesis by simp
  qed
qed

lemma split_no_sep: "w \<in> set (split sep s) \<Longrightarrow> sep \<notin> set w"
proof (induction s arbitrary: w)
  case Nil
  then show ?case by simp
next
  case (Cons c cs)
  obtain v vs where v: "split sep cs = v # vs"
    using split_nonempty [of sep cs] by (cases "split sep cs") auto
  show ?case
  proof (cases "c = sep")
    case True
    with Cons.prems have "w = [] \<or> w \<in> set (split sep cs)" by simp
    with Cons.IH show ?thesis by auto
  next
    case False
    with Cons.prems v have "w = c # v \<or> w \<in> set vs" by simp
    moreover have "sep \<notin> set v" using Cons.IH [of v] v by simp
    moreover have "\<And>x. x \<in> set vs \<Longrightarrow> sep \<notin> set x" using Cons.IH v by simp
    ultimately show ?thesis using False by auto
  qed
qed

lemma split_plain: "sep \<notin> set w \<Longrightarrow> split sep w = [w]"
  by (induction w) auto

lemma split_at_sep: "sep \<notin> set w \<Longrightarrow> split sep (w @ sep # rest) = w # split sep rest"
proof (induction w)
  case Nil
  show ?case by simp
next
  case (Cons c w)
  then show ?case by auto
qed

lemma split_joined:
  "sep \<notin> set w \<Longrightarrow> \<forall>x \<in> set ws. sep \<notin> set x \<Longrightarrow>
   split sep (w @ concat (map ((#) sep) ws)) = w # ws"
proof (induction ws arbitrary: w)
  case Nil
  then show ?case by (simp add: split_plain)
next
  case (Cons x xs)
  then show ?case by (simp add: split_at_sep)
qed

lemma split_snoc:
  assumes "sep \<notin> set s"
  shows "split sep (p @ sep # s) = split sep p @ [s]"
proof -
  obtain w ws where w: "split sep p = w # ws"
    using split_nonempty [of sep p] by (cases "split sep p") auto
  from split_join [OF w] have p: "p = w @ concat (map ((#) sep) ws)" by simp
  have "sep \<notin> set w" "\<forall>x \<in> set (ws @ [s]). sep \<notin> set x"
    using split_no_sep [of _ sep p] w assms by auto
  then have "split sep (w @ concat (map ((#) sep) (ws @ [s]))) = w # ws @ [s]"
    by (rule split_joined)
  moreover have "p @ sep # s = w @ concat (map ((#) sep) (ws @ [s]))"
    by (subst p) simp
  ultimately show ?thesis by (simp only: w append_Cons)
qed

lemma joinDots_split: "joinDots (hd (split CHR ''.'' p)) (tl (split CHR ''.'' p)) = p"
proof -
  obtain w ws where w: "split CHR ''.'' p = w # ws"
    using split_nonempty [of "CHR ''.''" p] by (cases "split CHR ''.'' p") auto
  from split_join [OF w] show ?thesis by (simp add: joinDots_def w)
qed




lemma registryOk_heap: "registryOk st \<Longrightarrow> shapeOk (heap st) \<and> namesOk (heap st)"
  by (simp add: registryOk_def)

lemma registryOk_addr:
  "registryOk st \<Longrightarrow> map_of (loggerRegistry st) q = Some a \<Longrightarrow> a < length (heap st)"
  by (auto simp: registryOk_def dest!: map_of_SomeD)

lemma parts_snoc:
  assumes "CHR ''.'' \<notin> set s"
  shows "tl (split CHR ''.'' (q @ ''.'' @ s)) \<noteq> []"
    and "joinDots (hd (split CHR ''.'' (q @ ''.'' @ s))) (butlast (tl (split CHR ''.'' (q @ ''.'' @ s)))) = q"
    and "last (split CHR ''.'' (q @ ''.'' @ s)) = s"
proof -
  obtain w ws where w: "split CHR ''.'' q = w # ws"
    using split_nonempty [of "CHR ''.''" q] by (cases "split CHR ''.'' q") auto
  from split_snoc [OF assms, of q] have e: "split CHR ''.'' (q @ CHR ''.'' # s) = w # ws @ [s]"
    by (simp add: w)
  show "tl (split CHR ''.'' (q @ ''.'' @ s)) \<noteq> []" by (simp add: e)
  show "last (split CHR ''.'' (q @ ''.'' @ s)) = s" by (simp add: e)
  from joinDots_split [of q] show "joinDots (hd (split CHR ''.'' (q @ ''.'' @ s)))
      (butlast (tl (split CHR ''.'' (q @ ''.'' @ s)))) = q"
    by (simp add: e w)
qed


lemma registryOk_frame:
  assumes ok: "registryOk st" and s: "shapeOk h'" and n: "namesOk h'" and g: "grows (heap st) h'"
    and r: "map_of (loggerRegistry st) \<subseteq>\<^sub>m map_of r'"
    and new: "\<And>q a. (q, a) \<in> set r' \<Longrightarrow> (q, a) \<notin> set (loggerRegistry st) \<Longrightarrow>
        a < length h' \<and> (let parts = split CHR ''.'' q in
                 tl parts \<noteq> [] \<longrightarrow>
                   (case map_of r' (joinDots (hd parts) (butlast (tl parts))) of
                      None \<Rightarrow> False
                    | Some pa \<Rightarrow> map_of (children (h' ! pa)) (last parts) = Some a))"
  shows "registryOk \<lparr> heap = h', loggerRegistry = r' \<rparr>"
  unfolding registryOk_def
proof (intro conjI ballI)
  show "shapeOk (heap \<lparr> heap = h', loggerRegistry = r' \<rparr>)" using s by simp
  show "namesOk (heap \<lparr> heap = h', loggerRegistry = r' \<rparr>)" using n by simp
next
  fix x assume x: "x \<in> set (loggerRegistry \<lparr> heap = h', loggerRegistry = r' \<rparr>)"
  obtain q a where qa: "x = (q, a)" by (cases x)
  have "a < length h' \<and> (let parts = split CHR ''.'' q in
                 tl parts \<noteq> [] \<longrightarrow>
                   (case map_of r' (joinDots (hd parts) (butlast (tl parts))) of
                      None \<Rightarrow> False
                    | Some pa \<Rightarrow> map_of (children (h' ! pa)) (last parts) = Some a))"
  proof (cases "(q, a) \<in> set (loggerRegistry st)")
    case False
    with x qa new show ?thesis by simp
  next
    case True
    with ok have a: "a < length (heap st)"
      and l: "let parts = split CHR ''.'' q in
                 tl parts \<noteq> [] \<longrightarrow>
                   (case map_of (loggerRegistry st) (joinDots (hd parts) (butlast (tl parts))) of
                      None \<Rightarrow> False
                    | Some pa \<Rightarrow> map_of (children (heap st ! pa)) (last parts) = Some a)"
      unfolding registryOk_def by fastforce+
    have "tl (split CHR ''.'' q) \<noteq> [] \<longrightarrow>
                   (case map_of r' (joinDots (hd (split CHR ''.'' q)) (butlast (tl (split CHR ''.'' q)))) of
                      None \<Rightarrow> False
                    | Some pa \<Rightarrow> map_of (children (h' ! pa)) (last (split CHR ''.'' q)) = Some a)"
    proof
      assume "tl (split CHR ''.'' q) \<noteq> []"
      with l obtain pa where pa: "map_of (loggerRegistry st)
            (joinDots (hd (split CHR ''.'' q)) (butlast (tl (split CHR ''.'' q)))) = Some pa"
          "map_of (children (heap st ! pa)) (last (split CHR ''.'' q)) = Some a"
        by (auto simp: Let_def split: option.splits)
      from pa(1) r have "map_of r' (joinDots (hd (split CHR ''.'' q)) (butlast (tl (split CHR ''.'' q)))) = Some pa"
        by (auto simp: map_le_def dom_def)
      moreover from registryOk_addr [OF ok pa(1)] pa(2) g
      have "map_of (children (h' ! pa)) (last (split CHR ''.'' q)) = Some a"
        by (simp add: grows_def)
      ultimately show "case map_of r' (joinDots (hd (split CHR ''.'' q)) (butlast (tl (split CHR ''.'' q)))) of
                      None \<Rightarrow> False
                    | Some pa \<Rightarrow> map_of (children (h' ! pa)) (last (split CHR ''.'' q)) = Some a"
        by simp
    qed
    with a g show ?thesis by (simp add: grows_def Let_def)
  qed
  then show "case x of (q, a) \<Rightarrow> a < length (heap \<lparr> heap = h', loggerRegistry = r' \<rparr>)
            \<and> (let parts = split CHR ''.'' q in
                 tl parts \<noteq> [] \<longrightarrow>
                   (case map_of (loggerRegistry \<lparr> heap = h', loggerRegistry = r' \<rparr>) (joinDots (hd parts) (butlast (tl parts))) of
                      None \<Rightarrow> False
                    | Some pa \<Rightarrow> map_of (children (heap \<lparr> heap = h', loggerRegistry = r' \<rparr> ! pa)) (last parts) = Some a))"
    by (auto simp: qa Let_def split: option.splits)
qed

lemma grows_refl: "grows h h"
  by (simp add: grows_def)

lemma grows_append: "grows h (h @ [l])"
  by (simp add: grows_def nth_append)

lemma child_grows:
  assumes "this < length h" and "Logger_child g this s b h = (c, h1)"
  shows "grows h h1"
proof (cases "map_of (children (h ! this)) s")
  case (Some c')
  with assms(2) show ?thesis by (simp add: Logger_child_def grows_refl)
next
  case None
  from child_fresh [OF None assms(1), of g b] assms(2)
  have h1: "h1 = (h @ [Logger_constructor g
                  \<lparr> opt_namespace = Some (namespace (h ! this) @ ''.'' @ s),
                    opt_enabled = Some (enabled (h ! this)),
                    opt_level = Some (minLevel (h ! this)),
                    opt_bindings = b,
                    opt_logDir = Some (logDir (h ! this)),
                    opt_logFileName = Some (logFileName (h ! this)),
                    opt_disableConsole = Some (disableConsole (h ! this)),
                    opt_maxSize = maxSize (h ! this),
                    opt_maxFiles = maxFiles (h ! this),
                    opt_frequency = frequency (h ! this),
                    opt_transports = Some (transports (h ! this)) \<rparr>])
             [this := (h ! this) \<lparr> children := children (h ! this) @ [(s, length h)] \<rparr>]"
    by simp
  show ?thesis
    unfolding grows_def
  proof (intro conjI allI impI)
    show "length h \<le> length h1" by (simp add: h1)
  next
    fix p k c' assume p: "p < length h" and m: "map_of (children (h ! p)) k = Some c'"
    show "map_of (children (h1 ! p)) k = Some c'"
    proof (cases "p = this")
      case True
      with m assms(1) show ?thesis by (simp add: h1 map_add_Some_iff)
    next
      case False
      with m p show ?thesis by (simp add: h1 nth_append)
    qed
  qed
qed

lemma State_update_eq: "(st :: State) \<lparr> heap := h, loggerRegistry := r \<rparr> = \<lparr> heap = h, loggerRegistry = r \<rparr>"
  by (cases st) simp

lemma update_le: "map_of r k = None \<Longrightarrow> map_of r \<subseteq>\<^sub>m map_of (AList.update k v r)"
  by (auto simp: update_conv' map_le_def dom_def)

lemma update_set: "map_of r k = None \<Longrightarrow> set (AList.update k v r) = insert (k, v) (set r)"
  by (simp add: update_absent map_of_eq_None_iff)

lemma registryOk_register:
  assumes ok: "registryOk st" and cur: "map_of (loggerRegistry st) path = Some cur"
    and nodot: "CHR ''.'' \<notin> set c"
    and new: "map_of (loggerRegistry st) (path @ ''.'' @ c) = None"
    and ch: "Logger_child g cur c b (heap st) = (cl, h)"
  shows "registryOk (st \<lparr> heap := h,
            loggerRegistry := AList.update (path @ ''.'' @ c) cl (loggerRegistry st) \<rparr>)"
proof -
  let ?r' = "AList.update (path @ ''.'' @ c) cl (loggerRegistry st)"
  from registryOk_addr [OF ok cur] have a: "cur < length (heap st)" .
  from registryOk_heap [OF ok] have s: "shapeOk (heap st)" and n: "namesOk (heap st)" by simp_all
  have s': "shapeOk h" using s a ch by (rule shapeOk_child)
  from namesOk_child [OF n a ch]
  have n': "namesOk h" and m: "map_of (children (h ! cur)) c = Some cl" and len: "length (heap st) \<le> length h"
    by simp_all
  have gr: "grows (heap st) h" using a ch by (rule child_grows)
  have le: "map_of (loggerRegistry st) \<subseteq>\<^sub>m map_of ?r'" using new by (rule update_le)
  from a len have a': "cur < length h" by simp
  from m have "(c, cl) \<in> set (children (h ! cur))" by (rule map_of_SomeD)
  with n' a' have cl: "cl < length h" unfolding namesOk_def by fastforce
  have cur': "map_of ?r' path = Some cur"
    using cur le by (auto simp: map_le_def dom_def)
  have "registryOk \<lparr> heap = h, loggerRegistry = ?r' \<rparr>"
    using ok s' n' gr le
  proof (rule registryOk_frame)
    fix q a assume "(q, a) \<in> set ?r'" and "(q, a) \<notin> set (loggerRegistry st)"
    with update_set [OF new, of cl] have qa: "q = path @ ''.'' @ c" "a = cl" by auto
    show "a < length h \<and> (let parts = split CHR ''.'' q in
                 tl parts \<noteq> [] \<longrightarrow>
                   (case map_of ?r' (joinDots (hd parts) (butlast (tl parts))) of
                      None \<Rightarrow> False
                    | Some pa \<Rightarrow> map_of (children (h ! pa)) (last parts) = Some a))"
      unfolding qa Let_def parts_snoc [OF nodot] using cl cur' m by simp
  qed
  then show ?thesis by (simp only: State_update_eq)
qed


lemma walk_ok:
  "registryOk st \<Longrightarrow> map_of (loggerRegistry st) path = Some cur \<Longrightarrow>
   \<forall>x \<in> set parts. CHR ''.'' \<notin> set x \<Longrightarrow> walk g parts cur path st = (l, st') \<Longrightarrow>
   registryOk st'"
proof (induction parts arbitrary: cur path st)
  case Nil
  then show ?case by simp
next
  case (Cons c parts)
  let ?p = "path @ ''.'' @ c"
  from Cons.prems(3) have nd: "CHR ''.'' \<notin> set c" and rest: "\<forall>x \<in> set parts. CHR ''.'' \<notin> set x"
    by simp_all
  show ?case
  proof (cases "map_of (loggerRegistry st) ?p")
    case (Some l0)
    with Cons.prems(4) have "walk g parts l0 ?p st = (l, st')" by simp
    from Cons.IH [OF Cons.prems(1) Some rest this] show ?thesis .
  next
    case None
    obtain cl h where ch: "Logger_child g cur c None (heap st) = (cl, h)" by fastforce
    let ?st1 = "st \<lparr> heap := h, loggerRegistry := AList.update ?p cl (loggerRegistry st) \<rparr>"
    from Cons.prems(4) None ch have w: "walk g parts cl ?p ?st1 = (l, st')" by (simp add: Let_def)
    have ok1: "registryOk ?st1"
      using Cons.prems(1,2) nd None ch by (rule registryOk_register)
    have "map_of (loggerRegistry ?st1) ?p = Some cl" by (simp add: update_conv')
    from Cons.IH [OF ok1 this rest w] show ?thesis .
  qed
qed

lemma registryOk_root:
  assumes ok: "registryOk st" and new: "map_of (loggerRegistry st) rootName = None"
    and nodot: "CHR ''.'' \<notin> set rootName"
  shows "registryOk (st \<lparr> heap := snd (newLogger g options (heap st)),
            loggerRegistry := AList.update rootName (fst (newLogger g options (heap st))) (loggerRegistry st) \<rparr>)"
proof -
  let ?h = "heap st @ [Logger_constructor g options]"
  let ?r' = "AList.update rootName (length (heap st)) (loggerRegistry st)"
  from registryOk_heap [OF ok] have s: "shapeOk (heap st)" and n: "namesOk (heap st)" by simp_all
  have s': "shapeOk ?h" using shapeOk_newLogger [OF s, of g options] by (simp add: newLogger_def)
  have n': "namesOk ?h" using namesOk_newLogger [OF n, of g options] by (simp add: newLogger_def)
  have le: "map_of (loggerRegistry st) \<subseteq>\<^sub>m map_of ?r'" using new by (rule update_le)
  have "registryOk \<lparr> heap = ?h, loggerRegistry = ?r' \<rparr>"
    using ok s' n' grows_append le
  proof (rule registryOk_frame)
    fix q a assume "(q, a) \<in> set ?r'" and "(q, a) \<notin> set (loggerRegistry st)"
    with update_set [OF new, of "length (heap st)"] have qa: "q = rootName" "a = length (heap st)" by auto
    show "a < length ?h \<and> (let parts = split CHR ''.'' q in
                 tl parts \<noteq> [] \<longrightarrow>
                   (case map_of ?r' (joinDots (hd parts) (butlast (tl parts))) of
                      None \<Rightarrow> False
                    | Some pa \<Rightarrow> map_of (children (?h ! pa)) (last parts) = Some a))"
      by (simp add: qa split_plain [OF nodot])
  qed
  then show ?thesis by (simp only: State_update_eq newLogger_def fst_conv snd_conv)
qed


lemma split_parts_nodot:
  "CHR ''.'' \<notin> set (hd (split CHR ''.'' p))" "\<forall>x \<in> set (tl (split CHR ''.'' p)). CHR ''.'' \<notin> set x"
proof -
  obtain w ws where w: "split CHR ''.'' p = w # ws"
    using split_nonempty [of "CHR ''.''" p] by (cases "split CHR ''.'' p") auto
  from split_no_sep [of _ "CHR ''.''" p] w
  show "CHR ''.'' \<notin> set (hd (split CHR ''.'' p))" "\<forall>x \<in> set (tl (split CHR ''.'' p)). CHR ''.'' \<notin> set x"
    by auto
qed

lemma getLogger_ok:
  assumes ok: "registryOk st" and "getLogger g p st = (a, st1)"
  shows "registryOk st1"
proof (cases "map_of (loggerRegistry st) p")
  case (Some l)
  with assms show ?thesis by (simp add: getLogger_def)
next
  case None
  let ?root = "hd (split CHR ''.'' p)"
  let ?rest = "tl (split CHR ''.'' p)"
  show ?thesis
  proof (cases "map_of (loggerRegistry st) ?root")
    case (Some r)
    with assms None have "walk g ?rest r ?root st = (a, st1)" by (simp add: getLogger_def Let_def)
    from walk_ok [OF ok Some split_parts_nodot(2) this] show ?thesis .
  next
    case N: None
    let ?st0 = "st \<lparr> heap := snd (newLogger g (noOptions \<lparr> opt_namespace := Some ?root \<rparr>) (heap st)),
        loggerRegistry := AList.update ?root
          (fst (newLogger g (noOptions \<lparr> opt_namespace := Some ?root \<rparr>) (heap st))) (loggerRegistry st) \<rparr>"
    from assms None N
    have w: "walk g ?rest (fst (newLogger g (noOptions \<lparr> opt_namespace := Some ?root \<rparr>) (heap st))) ?root ?st0
        = (a, st1)"
      by (simp add: getLogger_def Let_def split: prod.splits)
    have ok0: "registryOk ?st0" using ok N split_parts_nodot(1) by (rule registryOk_root)
    have "map_of (loggerRegistry ?st0) ?root
        = Some (fst (newLogger g (noOptions \<lparr> opt_namespace := Some ?root \<rparr>) (heap st)))"
      by (simp add: update_conv')
    from walk_ok [OF ok0 this split_parts_nodot(2) w] show ?thesis .
  qed
qed



lemma registryOk_child:
  assumes ok: "registryOk st" and a: "a < length (heap st)"
    and ch: "Logger_child g a s b (heap st) = (c, h2)"
  shows "registryOk (st \<lparr> heap := h2 \<rparr>)"
proof -
  from registryOk_heap [OF ok] have s: "shapeOk (heap st)" and n: "namesOk (heap st)" by simp_all
  have s': "shapeOk h2" using s a ch by (rule shapeOk_child)
  have n': "namesOk h2" using namesOk_child [OF n a ch] by simp
  have gr: "grows (heap st) h2" using a ch by (rule child_grows)
  have "registryOk \<lparr> heap = h2, loggerRegistry = loggerRegistry st \<rparr>"
    using ok s' n' gr by (rule registryOk_frame) simp_all
  then show ?thesis by (cases st) simp
qed



lemma registryOk_empty: "registryOk emptyState"
  by (simp add: registryOk_def emptyState_def shapeOk_def namesOk_def)

subsection \<open>One logger for each path\<close>




text \<open>
  The agreement is for child names of one segment.  \<open>child("B.C")\<close> on \<open>A\<close> makes a child
  under the key \<open>B.C\<close> with namespace \<open>A.B.C\<close>, while \<open>getLogger("A.B.C")\<close> walks the
  segments \<open>B\<close> and \<open>C\<close> and registers another object.
\<close>

lemma dotted_child_name_is_not_registered:
  "fst (Logger_child devNoPino 0 ''B.C'' None (heap stateA)) = 1
   \<and> namespace (snd (Logger_child devNoPino 0 ''B.C'' None (heap stateA)) ! 1) = ''A.B.C''
   \<and> fst (getLogger devNoPino ''A.B.C''
        (stateA \<lparr> heap := snd (Logger_child devNoPino 0 ''B.C'' None (heap stateA)) \<rparr>)) = 3"
  by (simp add: stateA_def getLogger_def emptyState_def newLogger_def Let_def
      Logger_child_def Logger_constructor_def orString_def noOptions_def)

lemma registryOk_heap_update:
  assumes "registryOk st" and "shapeOk h'" and "namesOk h'" and "grows (heap st) h'"
  shows "registryOk (st \<lparr> heap := h' \<rparr>)"
proof -
  have "registryOk \<lparr> heap = h', loggerRegistry = loggerRegistry st \<rparr>"
    using assms by (rule registryOk_frame) simp_all
  then show ?thesis by (cases st) simp
qed

lemma registryOk_newLogger:
  assumes "registryOk st"
  shows "registryOk (st \<lparr> heap := snd (newLogger g options (heap st)) \<rparr>)"
  using assms
proof (rule registryOk_heap_update)
  from registryOk_heap [OF assms]
  show "shapeOk (snd (newLogger g options (heap st)))" "namesOk (snd (newLogger g options (heap st)))"
    by (simp_all add: shapeOk_newLogger namesOk_newLogger)
  show "grows (heap st) (snd (newLogger g options (heap st)))"
    by (simp add: newLogger_def grows_append)
qed

lemma sameShape_grows: "sameShape h h' \<Longrightarrow> grows h h'"
  by (simp add: sameShape_def grows_def)

lemma registryOk_setConfig:
  assumes "registryOk st" and "this < length (heap st)"
    and "Logger_setConfig n g config this (heap st) = Some h'"
  shows "registryOk (st \<lparr> heap := h' \<rparr>)"
  using assms(1)
proof (rule registryOk_heap_update)
  from registryOk_heap [OF assms(1)] have s: "shapeOk (heap st)" and n: "namesOk (heap st)" by simp_all
  show "shapeOk h'" using s assms(2,3) by (rule shapeOk_setConfig)
  show "namesOk h'" using s n assms(2,3) by (rule namesOk_setConfig)
  from setConfig_result [OF s assms(2,3)] show "grows (heap st) h'"
    by (simp add: sameShape_grows sameShape_configured)
qed

lemma reachable_ok: "reachable g st \<Longrightarrow> registryOk st"
proof (induction rule: reachable.induct)
  case r_start
  show ?case by (rule registryOk_empty)
next
  case (r_new st options)
  then show ?case by (simp add: registryOk_newLogger)
next
  case (r_child st this s b)
  obtain c h where ch: "Logger_child g this s b (heap st) = (c, h)" by fastforce
  from registryOk_child [OF r_child.IH r_child.hyps(2) ch] ch show ?case by simp
next
  case (r_with st this bindings)
  then show ?case by (simp add: Logger_with_def registryOk_newLogger)
next
  case (r_setConfig st this n config h')
  then show ?case by (simp add: registryOk_setConfig)
next
  case (r_getLogger st p)
  obtain a st1 where gl: "getLogger g p st = (a, st1)" by fastforce
  from getLogger_ok [OF r_getLogger.IH gl] gl show ?case by simp
qed

section \<open>Properties of the module load\<close>

text \<open>
  The guarded half: when \<open>require('pino')\<close> throws, the module loads with pino unavailable
  and no root backend.
\<close>

lemma require_failure_swallowed:
  assumes "require_defined host" and "require_pino host = Inl e"
    and "host_process host = Some p" and "process_env p = Some ev"
  shows "\<exists>gl. loadModule host = Inr gl \<and> \<not> pinoAvailable gl \<and> basePino gl = None"
  using assms
  by (simp add: loadModule_def Let_def tryRequirePino_def bindE_def envVar_def)

text \<open>
  Claim C5 says that an error while constructing the root backend is swallowed.  The
  code guards only \<open>require('pino')\<close>: when the module loads and its factory throws,
  whatever the configuration, in a host where \<open>process.env\<close> and the host name can be
  read, the exception ends the evaluation of the module.
\<close>

theorem backend_construction_error_escapes:
  assumes "require_defined host" and "require_pino host = Inr (Some pm)"
    and "host_process host = Some p" and "process_env p = Some ev"
    and "os_hostname host = Inr hn"
    and "\<forall>cfg. pino_factory pm cfg = Some e"
  shows "loadModule host = Inl e"
proof -
  have t: "tryRequirePino host = (True, Some pm)"
    using assms(1,2) by (simp add: tryRequirePino_def)
  have v: "\<And>name. envVar host name = Inr (ev name)"
    using assms(3,4) by (simp add: envVar_def)
  have c: "\<And>production logfire logFile. createBasePino host production logfire logFile pm = Inl e"
    using assms(3,5,6) by (simp add: createBasePino_def v bindE_def Let_def split: option.splits)
  show ?thesis
    by (simp add: loadModule_def Let_def t v c bindE_def)
qed

text \<open>The failing host: pino is installed and its factory throws a \<open>TypeError\<close>.\<close>

theorem backend_construction_error_escapes_witness:
  "loadModule brokenPinoHost = Inl wildcardError"
  using backend_construction_error_escapes [where host = brokenPinoHost
      and pm = "\<lparr> transport_is_function = True, pino_factory = (\<lambda>cfg. Some wildcardError) \<rparr>"
      and p = nodeProcess and ev = "\<lambda>name. None" and hn = "''build-host''" and e = wildcardError]
  by (simp add: brokenPinoHost_def nodeProcess_def)

lemma missing_pino_falls_back:
  "\<exists>gl. loadModule missingPinoHost = Inr gl \<and> \<not> pinoAvailable gl \<and> basePino gl = None"
  by (rule require_failure_swallowed [where p = nodeProcess])
     (simp_all add: missingPinoHost_def nodeProcess_def)

end
